theory Spec2Isabelle
  imports Main "HOL-Library.Word" "HOL-Library.Signed_Division"
begin

unbundle bit_operations_syntax

section \<open>AC dimmer firmware (ATtiny85, Timer1 polling variant)\<close>

text \<open>
  The firmware of \<^verbatim>\<open>avr/Attiny85-Dimmer/src/main.cpp\<close>: a 50 microsecond timer interrupt
  that polls the zero-cross input and drives the triac gate through a four-state machine,
  a start-up calibration that measures the mains half-period, and a background loop that
  maps the ADC reading to the phase delay.
\<close>

type_synonym u8 = "8 word"
type_synonym u16 = "16 word"

subsection \<open>Constants\<close>

definition TRIAC_PIN :: nat where "TRIAC_PIN = 0"
definition DEBUG_PIN :: nat where "DEBUG_PIN = 1"
definition ZC_PIN :: nat where "ZC_PIN = 2"

definition TRIGGER_PULSE_WIDTH :: u8 where "TRIGGER_PULSE_WIDTH = 10"
definition ZC_OFFSET :: u8 where "ZC_OFFSET = 8"
definition SAFETY_TIMEOUT :: u8 where "SAFETY_TIMEOUT = 210"
definition MIN_ZC_PERIOD :: u8 where "MIN_ZC_PERIOD = 140"
definition MIN_DIM_DEFAULT :: u8 where "MIN_DIM_DEFAULT = 62"
definition MIN_DIM_BASE :: u8 where "MIN_DIM_BASE = 62"
definition MAX_DIM_DEFAULT :: u8 where "MAX_DIM_DEFAULT = 157"
definition MAX_DIM_MARGIN :: u8 where "MAX_DIM_MARGIN = 9"
definition MAX_DIM_MIN :: u8 where "MAX_DIM_MIN = 156"
definition MAX_DIM_MAX :: u8 where "MAX_DIM_MAX = 195"
definition MIN_DIM_MIN :: u8 where "MIN_DIM_MIN = 50"
definition MIN_DIM_MAX :: u8 where "MIN_DIM_MAX = 80"

definition ADC_MIN :: int where "ADC_MIN = 61"
definition ADC_MAX :: int where "ADC_MAX = 880"
definition ADC_OFF :: int where "ADC_OFF = 920"
definition DIM_OFF :: u8 where "DIM_OFF = 255"

definition S_IDLE :: u8 where "S_IDLE = 0"
definition S_ZC_OFFSET :: u8 where "S_ZC_OFFSET = 1"
definition S_DELAY :: u8 where "S_DELAY = 2"
definition S_TRIGGER :: u8 where "S_TRIGGER = 3"

subsection \<open>Global variables and the output port\<close>

text \<open>
  The globals the interrupt handler and \<open>setup()\<close> work on, the two function-local statics
  of the handler (\<open>lastPin\<close>, \<open>zcTimer\<close>) and the output register \<open>PORTB\<close>. The input
  register \<open>PINB\<close> is sampled by the handler and is a parameter of it. The remaining
  global, \<open>potValue\<close>, only holds the ADC reading inside \<open>loop()\<close>; it is the argument of
  \<open>loop\<close> below and not a field.
\<close>

record dimmer =
  state :: u8
  counter :: u8
  dimValue :: u8
  calibMode :: bool
  calibCounter :: u16
  minDim :: u8
  maxDim :: u8
  lastPin :: u8
  zcTimer :: u8
  PORTB :: u8

definition triac_on :: "dimmer \<Rightarrow> bool" where
  "triac_on s = bit (PORTB s) TRIAC_PIN"

subsection \<open>The timer interrupt handler\<close>

definition TIMER1_COMPA_vect :: "u8 \<Rightarrow> dimmer \<Rightarrow> dimmer" where
  "TIMER1_COMPA_vect PINB s =
    (if calibMode s then s\<lparr>calibCounter := calibCounter s + 1\<rparr>
     else
       let curPin = drop_bit ZC_PIN PINB AND 1;
           rising = curPin AND NOT (lastPin s);
           s = s\<lparr>lastPin := curPin\<rparr>;
           s = (if zcTimer s < 255 then s\<lparr>zcTimer := zcTimer s + 1\<rparr> else s)
       in
         if state s = S_IDLE then
           (if rising \<noteq> 0 \<and> zcTimer s > MIN_ZC_PERIOD
            then s\<lparr>zcTimer := 0, counter := 0, state := S_ZC_OFFSET,
                   PORTB := PORTB s XOR push_bit DEBUG_PIN 1\<rparr>
            else s)
         else if state s = S_ZC_OFFSET then
           (let s = s\<lparr>counter := counter s + 1\<rparr>
            in if counter s \<ge> ZC_OFFSET
               then s\<lparr>counter := 0, state := S_DELAY\<rparr>
               else s)
         else if state s = S_DELAY then
           (let s = s\<lparr>counter := counter s + 1\<rparr>
            in if counter s \<ge> dimValue s
               then s\<lparr>PORTB := PORTB s OR push_bit TRIAC_PIN 1, counter := 0,
                      state := S_TRIGGER\<rparr>
               else if counter s \<ge> SAFETY_TIMEOUT
               then s\<lparr>PORTB := PORTB s AND NOT (push_bit TRIAC_PIN 1), state := S_IDLE\<rparr>
               else s)
         else if state s = S_TRIGGER then
           (let s = s\<lparr>counter := counter s + 1\<rparr>
            in if counter s \<ge> TRIGGER_PULSE_WIDTH
               then s\<lparr>PORTB := PORTB s AND NOT (push_bit TRIAC_PIN 1), state := S_IDLE\<rparr>
               else s)
         else s\<lparr>PORTB := PORTB s AND NOT (push_bit TRIAC_PIN 1), state := S_IDLE\<rparr>)"

subsection \<open>Executions in normal mode\<close>

text \<open>
  One timer tick of an execution: the value of \<open>PINB\<close> that the handler samples, and the
  value that \<open>loop()\<close> stored into \<open>dimValue\<close> (inside its \<open>cli()/sei()\<close> section) since the
  previous tick, if it stored one. Any byte is allowed as the stored value, which covers
  every value \<open>loop()\<close> can compute.
\<close>

type_synonym tick_in = "u8 \<times> u8 option"

definition step :: "tick_in \<Rightarrow> dimmer \<Rightarrow> dimmer" where
  "step e s =
     TIMER1_COMPA_vect (fst e) (case snd e of None \<Rightarrow> s | Some d \<Rightarrow> s\<lparr>dimValue := d\<rparr>)"

fun run :: "tick_in list \<Rightarrow> dimmer \<Rightarrow> dimmer" where
  "run [] s = s"
| "run (e # es) s = run es (step e s)"

text \<open>
  Ticks during which \<open>dimValue\<close> is held: only the sampled pin values matter. A tick on
  which \<open>loop()\<close> stores the value \<open>dimValue\<close> already has is the same step
  (\<open>step_same_value\<close> below).
\<close>

definition hold :: "u8 list \<Rightarrow> tick_in list" where
  "hold pins = map (\<lambda>p. (p, None)) pins"

text \<open>
  The condition of the \<open>S_IDLE\<close> branch: the handler, entered in normal mode in state
  \<open>S_IDLE\<close>, sees a rising edge and a debounce timer (already incremented in this tick,
  saturating at 255) above \<open>MIN_ZC_PERIOD\<close>.
\<close>

definition zc_accepted :: "u8 \<Rightarrow> dimmer \<Rightarrow> bool" where
  "zc_accepted PINB s \<longleftrightarrow>
     \<not> calibMode s \<and> state s = S_IDLE \<and>
     (drop_bit ZC_PIN PINB AND 1) AND NOT (lastPin s) \<noteq> 0 \<and>
     (if zcTimer s < 255 then zcTimer s + 1 else zcTimer s) > MIN_ZC_PERIOD"

text \<open>
  What holds of every state of a normal-mode execution: the gate output is asserted only
  in state \<open>S_TRIGGER\<close>, and the counter stays below the bound of the state it counts in.
\<close>

definition inv_normal :: "dimmer \<Rightarrow> bool" where
  "inv_normal s \<longleftrightarrow>
     \<not> calibMode s \<and>
     (triac_on s \<longrightarrow> state s = S_TRIGGER) \<and>
     (state s = S_TRIGGER \<longrightarrow> unat (counter s) < 10) \<and>
     (state s = S_DELAY \<longrightarrow> unat (counter s) < 210)"

subsection \<open>Start-up calibration\<close>

text \<open>
  The measurement loop of \<open>setup()\<close>. Each iteration busy-waits for the next rising edge
  and then reads and clears \<open>calibCounter\<close>, which the interrupt handler increments once
  per tick while \<open>calibMode\<close> is set. The input \<open>edges\<close> gives, for the \<open>i\<close>-th rising
  edge, the 16-bit value read from \<open>calibCounter\<close> at that edge, or \<open>None\<close> when no such
  edge ever arrives, in which case the busy-wait never ends (\<open>readings_of\<close> below gives the
  readings for given numbers of ticks between the edges). The loop need not terminate;
  \<open>None\<close> is a run that never leaves the loop. The result is \<open>periodSum\<close> together with
  the number of edges consumed.
\<close>

partial_function (option) measure_loop ::
  "(nat \<Rightarrow> u16 option) \<Rightarrow> nat \<Rightarrow> u16 \<Rightarrow> u8 \<Rightarrow> (u16 \<times> nat) option" where
  "measure_loop edges i periodSum samples =
     (if samples < 8 then
        (case edges i of
           None \<Rightarrow> None
         | Some ticks \<Rightarrow>
             if ticks \<ge> 140 \<and> ticks \<le> 220
             then measure_loop edges (i + 1) (periodSum + ticks) (samples + 1)
             else measure_loop edges (i + 1) periodSum samples)
      else Some (periodSum, i))"

text \<open>
  The arithmetic after the loop. \<open>calcMax\<close> and \<open>calcMin\<close> are \<open>int16_t\<close>; they are computed
  here on unbounded integers, which is exact because \<open>avgPeriod\<close> is at most 255, so every
  intermediate value lies between \<open>-9\<close> and \<open>255 * 62 = 15810\<close>. Division is C's truncating
  division.
\<close>

definition calc_maxDim :: "u8 \<Rightarrow> u8" where
  "calc_maxDim avgPeriod =
     (let calcMax = uint avgPeriod - uint MAX_DIM_MARGIN;
          calcMax = (if calcMax < uint MAX_DIM_MIN then uint MAX_DIM_MIN else calcMax);
          calcMax = (if calcMax > uint MAX_DIM_MAX then uint MAX_DIM_MAX else calcMax)
      in word_of_int calcMax)"

definition calc_minDim :: "u8 \<Rightarrow> u8" where
  "calc_minDim avgPeriod =
     (let calcMin = uint avgPeriod * uint MIN_DIM_BASE sdiv 166 - 1;
          calcMin = (if calcMin < uint MIN_DIM_MIN then uint MIN_DIM_MIN else calcMin);
          calcMin = (if calcMin > uint MIN_DIM_MAX then uint MIN_DIM_MAX else calcMin)
      in word_of_int calcMin)"

text \<open>
  \<open>setup()\<close> from the pin set-up on. Index 0 of \<open>edges\<close> is the edge the code waits for to
  synchronise (its counter value is discarded); the measured samples start at index 1.
\<close>

definition setup_calib :: "(nat \<Rightarrow> u16 option) \<Rightarrow> dimmer \<Rightarrow> dimmer option" where
  "setup_calib edges s =
     (let s = s\<lparr>PORTB := PORTB s AND
                 NOT (push_bit TRIAC_PIN 1 OR push_bit DEBUG_PIN 1 OR push_bit ZC_PIN 1)\<rparr>;
          s = s\<lparr>calibMode := True, calibCounter := 0\<rparr>
      in case edges 0 of
           None \<Rightarrow> None
         | Some _ \<Rightarrow>
            (case measure_loop edges 1 0 0 of
               None \<Rightarrow> None
             | Some (periodSum, n) \<Rightarrow>
                 let avgPeriod = (ucast (periodSum div 8) :: u8);
                     s = s\<lparr>calibCounter := 0\<rparr>;
                     s = s\<lparr>maxDim := calc_maxDim avgPeriod\<rparr>;
                     s = s\<lparr>minDim := calc_minDim avgPeriod\<rparr>
                 in Some (s\<lparr>calibMode := False\<rparr>)))"

text \<open>The initial values of the globals; \<open>PORTB\<close> is whatever the hardware holds.\<close>

definition power_on :: "u8 \<Rightarrow> dimmer" where
  "power_on portb =
     \<lparr>state = S_IDLE, counter = 0, dimValue = DIM_OFF, calibMode = True, calibCounter = 0,
      minDim = MIN_DIM_DEFAULT, maxDim = MAX_DIM_DEFAULT, lastPin = 0, zcTimer = 255,
      PORTB = portb\<rparr>"

text \<open>
  The samples the loop adds to \<open>periodSum\<close> among the edges \<open>i, \<dots>, n - 1\<close>, in order:
  the readings inside the window \<open>[140, 220]\<close>.
\<close>

definition sample_at :: "(nat \<Rightarrow> u16 option) \<Rightarrow> nat \<Rightarrow> u16 list" where
  "sample_at edges j =
     (case edges j of
        None \<Rightarrow> []
      | Some ticks \<Rightarrow> if ticks \<ge> 140 \<and> ticks \<le> 220 then [ticks] else [])"

definition accepted_samples :: "(nat \<Rightarrow> u16 option) \<Rightarrow> nat \<Rightarrow> nat \<Rightarrow> u16 list" where
  "accepted_samples edges i n = concat (map (sample_at edges) [i..<n])"

text \<open>
  The value \<open>setup()\<close> reads from \<open>calibCounter\<close> when \<open>g\<close> timer ticks have passed since
  it cleared the counter: the handler, in calibration mode, called \<open>g\<close> times.
\<close>

definition calib_reading :: "nat \<Rightarrow> u16" where
  "calib_reading g = calibCounter (fold TIMER1_COMPA_vect (replicate g 0) (power_on 0))"

text \<open>
  The stream of readings for a stream of edges given by the number of ticks between each
  edge and the one before it (\<open>None\<close>: the edge never arrives).
\<close>

definition readings_of :: "(nat \<Rightarrow> nat option) \<Rightarrow> nat \<Rightarrow> u16 option" where
  "readings_of gaps i = map_option calib_reading (gaps i)"

text \<open>
  The samples of the specification among the edges \<open>i, \<dots>, n - 1\<close>: the tick counts since the
  previous edge that lie in the plausibility window \<open>[140, 220]\<close>.
\<close>

definition window_gaps_spec :: "(nat \<Rightarrow> nat option) \<Rightarrow> nat \<Rightarrow> nat \<Rightarrow> nat list" where
  "window_gaps_spec gaps i n =
     concat (map (\<lambda>j. case gaps j of
                         None \<Rightarrow> []
                       | Some g \<Rightarrow> if 140 \<le> g \<and> g \<le> 220 then [g] else []) [i..<n])"

text \<open>
  The average of the specification: the sum of the samples, read as numbers, divided by 8
  and rounded down.
\<close>

definition avgPeriod_spec :: "u16 list \<Rightarrow> int" where
  "avgPeriod_spec xs = int (sum_list (map unat xs)) div 8"

text \<open>The clamp of the specification, on integers.\<close>

definition clamp_spec :: "int \<Rightarrow> int \<Rightarrow> int \<Rightarrow> int" where
  "clamp_spec x lo hi = max lo (min hi x)"

subsection \<open>The background loop\<close>

text \<open>
  Modelled from the spec: the Arduino core function \<open>map\<close> is called by \<open>loop()\<close> but is not
  among the sources. The spec says the clamped input is linearly mapped into
  \<open>[minDelay, maxDelay]\<close>; this is the linear map of the Arduino core,
  \<open>(x - in_min) * (out_max - out_min) / (in_max - in_min) + out_min\<close>, with C's truncating
  division. Its arguments are \<open>long\<close>; for the arguments \<open>loop()\<close> passes every intermediate
  value is below \<open>1023 * 255\<close> in absolute value, so unbounded integers are exact.
\<close>

definition map_long :: "int \<Rightarrow> int \<Rightarrow> int \<Rightarrow> int \<Rightarrow> int \<Rightarrow> int" where
  "map_long x in_min in_max out_min out_max =
     (x - in_min) * (out_max - out_min) sdiv (in_max - in_min) + out_min"

text \<open>
  One iteration of \<open>loop()\<close>; \<open>adc\<close> is the 16-bit \<open>int\<close> that \<open>analogRead\<close> returned, read as
  a signed number. The subtraction \<open>potValue - ADC_MIN\<close> is only evaluated for
  \<open>61 < potValue < 880\<close>, and the product is a \<open>long\<close>, so nothing overflows.
\<close>

definition loop :: "16 word \<Rightarrow> dimmer \<Rightarrow> dimmer" where
  "loop adc s =
     (let potValue = sint adc;
          tempDimValue =
            (if potValue \<ge> ADC_OFF then DIM_OFF
             else
               let potScaled =
                     (if potValue \<le> ADC_MIN then 0
                      else if potValue \<ge> ADC_MAX then 1023
                      else (potValue - ADC_MIN) * 1023 sdiv (ADC_MAX - ADC_MIN));
                   currentMinDim = minDim s;
                   currentMaxDim = maxDim s
               in word_of_int (map_long potScaled 0 1023 (uint currentMinDim) (uint currentMaxDim)))
      in s\<lparr>dimValue := tempDimValue\<rparr>)"

text \<open>The value \<open>loop()\<close> gives its local \<open>potScaled\<close> for the reading \<open>x\<close>.\<close>

definition potScaled_of :: "int \<Rightarrow> int" where
  "potScaled_of x = (if x \<le> ADC_MIN then 0 else if x \<ge> ADC_MAX then 1023
                     else (x - ADC_MIN) * 1023 sdiv (ADC_MAX - ADC_MIN))"

subsection \<open>Concrete inputs\<close>

text \<open>A normal-mode state with an out-of-range \<open>state\<close> value and the gate output asserted.\<close>

definition corrupted :: "u8 \<Rightarrow> dimmer" where
  "corrupted v =
     \<lparr>state = v, counter = 0, dimValue = 80, calibMode = False, calibCounter = 0,
      minDim = 61, maxDim = 157, lastPin = 0, zcTimer = 255, PORTB = 1\<rparr>"

text \<open>A 60 Hz mains: every edge arrives, 166 ticks after the previous one.\<close>

definition mains_60Hz :: "nat \<Rightarrow> u16 option" where
  "mains_60Hz i = Some 166"

text \<open>The state \<open>setup()\<close> leaves behind on that mains, from a cleared port.\<close>

definition calibrated_60Hz :: dimmer where
  "calibrated_60Hz =
     \<lparr>state = S_IDLE, counter = 0, dimValue = DIM_OFF, calibMode = False, calibCounter = 0,
      minDim = 61, maxDim = 157, lastPin = 0, zcTimer = 255, PORTB = 0\<rparr>"

text \<open>
  Ticks after calibration: a rising edge on PB2 (bit 2 of \<open>PINB\<close>) while \<open>loop()\<close> stores
  a delay, then eight ticks with the input low. The edge is accepted on the first tick and
  the eighth tick after it enters \<open>S_DELAY\<close>.
\<close>

definition edge_then_offset :: "u8 \<Rightarrow> tick_in list" where
  "edge_then_offset d = (4, Some d) # hold [0, 0, 0, 0, 0, 0, 0, 0]"

text \<open>Ten ticks with edges on the input and writes to \<open>dimValue\<close>.\<close>

definition busy_ticks :: "tick_in list" where
  "busy_ticks =
     [(4, Some 200), (0, None), (0, None), (4, None), (0, Some 7),
      (0, None), (4, None), (0, None), (0, Some 255), (4, None)]"

text \<open>
  A mains with a glitch before every third edge (a reading of 30 ticks), a line that only
  ever delivers glitches, and a mains that is lost after five edges.
\<close>

definition noisy_mains :: "nat \<Rightarrow> u16 option" where
  "noisy_mains i = (if i mod 3 = 0 then Some 30 else Some 166)"

definition glitches_only :: "nat \<Rightarrow> u16 option" where
  "glitches_only i = Some 30"

definition mains_lost :: "nat \<Rightarrow> u16 option" where
  "mains_lost i = (if i < 5 then Some 166 else None)"

text \<open>
  A mains whose edges come 65702 ticks apart (about 3.3 s): far outside the window.
\<close>

definition slow_mains :: "nat \<Rightarrow> nat option" where
  "slow_mains i = Some 65702"

section \<open>Properties\<close>

subsection \<open>One call of the interrupt handler\<close>

lemmas pin_defs = TRIAC_PIN_def DEBUG_PIN_def ZC_PIN_def

lemmas state_defs = S_IDLE_def S_ZC_OFFSET_def S_DELAY_def S_TRIGGER_def

lemmas timing_defs = TRIGGER_PULSE_WIDTH_def ZC_OFFSET_def SAFETY_TIMEOUT_def MIN_ZC_PERIOD_def

lemma u8_succ: "unat ((c::u8) + 1) = (if unat c = 255 then 0 else unat c + 1)"
proof -
  have "unat c < 256" using unsigned_less [of c] by simp
  then show ?thesis by (auto simp add: unat_word_ariths)
qed

lemma isr_frame:
  "calibMode (TIMER1_COMPA_vect p s) = calibMode s"
  "dimValue (TIMER1_COMPA_vect p s) = dimValue s"
  "minDim (TIMER1_COMPA_vect p s) = minDim s"
  "maxDim (TIMER1_COMPA_vect p s) = maxDim s"
  by (simp_all add: TIMER1_COMPA_vect_def Let_def)

text \<open>What one call of the handler does to the state, the counter and the gate output.\<close>

lemma isr_idle:
  assumes "\<not> calibMode s" "state s = S_IDLE"
  shows "triac_on (TIMER1_COMPA_vect p s) = triac_on s"
    and "state (TIMER1_COMPA_vect p s) = (if zc_accepted p s then S_ZC_OFFSET else S_IDLE)"
    and "counter (TIMER1_COMPA_vect p s) = (if zc_accepted p s then 0 else counter s)"
  using assms
  by (simp_all add: TIMER1_COMPA_vect_def Let_def zc_accepted_def triac_on_def pin_defs bit_simps)

lemma isr_offset:
  assumes "\<not> calibMode s" "state s = S_ZC_OFFSET"
  shows "triac_on (TIMER1_COMPA_vect p s) = triac_on s"
    and "state (TIMER1_COMPA_vect p s) = (if counter s + 1 \<ge> ZC_OFFSET then S_DELAY else S_ZC_OFFSET)"
    and "counter (TIMER1_COMPA_vect p s) = (if counter s + 1 \<ge> ZC_OFFSET then 0 else counter s + 1)"
  using assms
  by (simp_all add: TIMER1_COMPA_vect_def Let_def state_defs triac_on_def pin_defs bit_simps)

lemma isr_delay:
  assumes "\<not> calibMode s" "state s = S_DELAY"
  shows "triac_on (TIMER1_COMPA_vect p s) =
           (if counter s + 1 \<ge> dimValue s then True
            else if counter s + 1 \<ge> SAFETY_TIMEOUT then False
            else triac_on s)"
    and "state (TIMER1_COMPA_vect p s) =
           (if counter s + 1 \<ge> dimValue s then S_TRIGGER
            else if counter s + 1 \<ge> SAFETY_TIMEOUT then S_IDLE else S_DELAY)"
    and "counter (TIMER1_COMPA_vect p s) = (if counter s + 1 \<ge> dimValue s then 0 else counter s + 1)"
  using assms
  by (simp_all add: TIMER1_COMPA_vect_def Let_def state_defs triac_on_def pin_defs bit_simps)

lemma isr_trigger:
  assumes "\<not> calibMode s" "state s = S_TRIGGER"
  shows "triac_on (TIMER1_COMPA_vect p s) =
           (if counter s + 1 \<ge> TRIGGER_PULSE_WIDTH then False else triac_on s)"
    and "state (TIMER1_COMPA_vect p s) =
           (if counter s + 1 \<ge> TRIGGER_PULSE_WIDTH then S_IDLE else S_TRIGGER)"
    and "counter (TIMER1_COMPA_vect p s) = counter s + 1"
  using assms
  by (simp_all add: TIMER1_COMPA_vect_def Let_def state_defs triac_on_def pin_defs bit_simps)

lemma isr_default:
  assumes "\<not> calibMode s" "state s \<noteq> S_IDLE" "state s \<noteq> S_ZC_OFFSET" "state s \<noteq> S_DELAY" "state s \<noteq> S_TRIGGER"
  shows "\<not> triac_on (TIMER1_COMPA_vect p s)"
    and "state (TIMER1_COMPA_vect p s) = S_IDLE"
  using assms
  by (simp_all add: TIMER1_COMPA_vect_def Let_def triac_on_def pin_defs bit_simps)

lemma inv_isr:
  assumes "inv_normal s" shows "inv_normal (TIMER1_COMPA_vect p s)"
proof -
  have nc: "\<not> calibMode s" using assms by (simp add: inv_normal_def)
  consider "state s = S_IDLE" | "state s = S_ZC_OFFSET" | "state s = S_DELAY" | "state s = S_TRIGGER"
    | "state s \<noteq> S_IDLE" "state s \<noteq> S_ZC_OFFSET" "state s \<noteq> S_DELAY" "state s \<noteq> S_TRIGGER"
    by blast
  then show ?thesis
  proof cases
    case 1
    with assms nc show ?thesis
      by (simp add: inv_normal_def isr_frame isr_idle state_defs)
  next
    case 2
    with assms nc show ?thesis
      by (simp add: inv_normal_def isr_frame isr_offset state_defs)
  next
    case 3
    with assms nc show ?thesis
      by (simp add: inv_normal_def isr_frame isr_delay state_defs
           timing_defs word_le_nat_alt u8_succ)
  next
    case 4
    with assms nc show ?thesis
      by (simp add: inv_normal_def isr_frame isr_trigger state_defs
           timing_defs word_le_nat_alt u8_succ)
  next
    case 5
    with assms nc show ?thesis
      by (simp add: inv_normal_def isr_frame isr_default state_defs)
  qed
qed

subsection \<open>Executions\<close>

lemma step_frame:
  "calibMode (step e s) = calibMode s"
  "minDim (step e s) = minDim s"
  "maxDim (step e s) = maxDim s"
  by (simp_all add: step_def isr_frame split: option.split)

lemma step_same_value: "step (p, Some (dimValue s)) s = step (p, None) s"
  by (simp add: step_def)

lemma step_hold_dim: "dimValue (step (p, None) s) = dimValue s"
  by (simp add: step_def isr_frame)

lemma triac_write [simp]: "triac_on (s\<lparr>dimValue := d\<rparr>) = triac_on s"
  by (simp add: triac_on_def)

lemma inv_write: "inv_normal (s\<lparr>dimValue := d\<rparr>) = inv_normal s"
  by (simp add: inv_normal_def triac_on_def)

lemma inv_step: "inv_normal s \<Longrightarrow> inv_normal (step e s)"
  by (simp add: step_def inv_isr inv_write split: option.split)

lemma inv_run: "inv_normal s \<Longrightarrow> inv_normal (run evs s)"
  by (induction evs arbitrary: s) (simp_all add: inv_step)

lemma run_frame:
  "calibMode (run evs s) = calibMode s"
  "minDim (run evs s) = minDim s"
  "maxDim (run evs s) = maxDim s"
  by (induction evs arbitrary: s) (simp_all add: step_frame)

lemma run_append: "run (xs @ ys) s = run ys (run xs s)"
  by (induction xs arbitrary: s) simp_all

lemma run_snoc: "run (xs @ [e]) s = step e (run xs s)"
  by (simp add: run_append)

lemma hold_simps:
  "hold [] = []"
  "hold (p # ps) = (p, None) # hold ps"
  "hold (xs @ ys) = hold xs @ hold ys"
  "length (hold xs) = length xs"
  by (simp_all add: hold_def)

text \<open>One tick of an execution, with the counter read as a number.\<close>

lemma step_trigger:
  assumes "\<not> calibMode s" "state s = S_TRIGGER" "unat (counter s) < 10"
  shows "state (step e s) = (if unat (counter s) < 9 then S_TRIGGER else S_IDLE)"
    and "triac_on (step e s) = (if unat (counter s) < 9 then triac_on s else False)"
    and "unat (counter (step e s)) = unat (counter s) + 1"
  using assms
  by (simp_all add: step_def isr_trigger timing_defs word_le_nat_alt u8_succ split: option.split)

lemma step_offset:
  assumes "\<not> calibMode s" "state s = S_ZC_OFFSET" "unat (counter s) < 8"
  shows "state (step e s) = (if unat (counter s) < 7 then S_ZC_OFFSET else S_DELAY)"
    and "triac_on (step e s) = triac_on s"
    and "unat (counter (step e s)) = (if unat (counter s) < 7 then unat (counter s) + 1 else 0)"
  using assms
  by (simp_all add: step_def isr_offset timing_defs word_le_nat_alt u8_succ split: option.split)

lemma step_delay_hold:
  assumes "\<not> calibMode s" "state s = S_DELAY" "unat (counter s) < 210"
  shows "state (step (p, None) s) =
           (if unat (counter s) + 1 \<ge> unat (dimValue s) then S_TRIGGER
            else if unat (counter s) + 1 \<ge> 210 then S_IDLE else S_DELAY)"
    and "triac_on (step (p, None) s) =
           (if unat (counter s) + 1 \<ge> unat (dimValue s) then True
            else if unat (counter s) + 1 \<ge> 210 then False else triac_on s)"
    and "unat (counter (step (p, None) s)) =
           (if unat (counter s) + 1 \<ge> unat (dimValue s) then 0 else unat (counter s) + 1)"
  using assms
  by (simp_all add: step_def isr_delay timing_defs word_le_nat_alt u8_succ)

subsection \<open>Phases of a half-cycle\<close>

lemma trigger_phase:
  assumes "\<not> calibMode s" "state s = S_TRIGGER" "unat (counter s) + length evs < 10"
  shows "state (run evs s) = S_TRIGGER \<and> triac_on (run evs s) = triac_on s \<and>
         unat (counter (run evs s)) = unat (counter s) + length evs"
  using assms
proof (induction evs arbitrary: s)
  case Nil
  then show ?case by simp
next
  case (Cons e es)
  have c: "unat (counter s) < 9" using Cons.prems by simp
  then have c10: "unat (counter s) < 10" by simp
  note st = step_trigger [OF Cons.prems(1,2) c10, of e]
  have "state (run es (step e s)) = S_TRIGGER \<and>
        triac_on (run es (step e s)) = triac_on (step e s) \<and>
        unat (counter (run es (step e s))) = unat (counter (step e s)) + length es"
    using Cons.prems c st by (intro Cons.IH) (simp_all add: step_frame)
  then show ?case using st c by simp
qed

lemma trigger_end:
  assumes "\<not> calibMode s" "state s = S_TRIGGER" "unat (counter s) + length evs = 10" "evs \<noteq> []"
  shows "state (run evs s) = S_IDLE \<and> \<not> triac_on (run evs s)"
proof -
  obtain es e where evs: "evs = es @ [e]" using assms(4) by (metis rev_exhaust)
  let ?t = "run es s"
  have len: "unat (counter s) + length es = 9" using assms(3) evs by simp
  then have ph: "state ?t = S_TRIGGER" "unat (counter ?t) = 9"
    using trigger_phase [OF assms(1,2), of es] by simp_all
  have nc: "\<not> calibMode ?t" using assms(1) by (simp add: run_frame)
  show ?thesis using step_trigger [OF nc ph(1), of e] ph(2) by (simp add: evs run_snoc)
qed

lemma offset_phase:
  assumes "\<not> calibMode s" "state s = S_ZC_OFFSET" "unat (counter s) + length evs < 8"
  shows "state (run evs s) = S_ZC_OFFSET \<and> triac_on (run evs s) = triac_on s \<and>
         unat (counter (run evs s)) = unat (counter s) + length evs"
  using assms
proof (induction evs arbitrary: s)
  case Nil
  then show ?case by simp
next
  case (Cons e es)
  have c: "unat (counter s) < 7" using Cons.prems by simp
  then have c8: "unat (counter s) < 8" by simp
  note st = step_offset [OF Cons.prems(1,2) c8, of e]
  have "state (run es (step e s)) = S_ZC_OFFSET \<and>
        triac_on (run es (step e s)) = triac_on (step e s) \<and>
        unat (counter (run es (step e s))) = unat (counter (step e s)) + length es"
    using Cons.prems c st by (intro Cons.IH) (simp_all add: step_frame)
  then show ?case using st c by simp
qed

lemma offset_end:
  assumes "\<not> calibMode s" "state s = S_ZC_OFFSET" "unat (counter s) + length evs = 8" "evs \<noteq> []"
  shows "state (run evs s) = S_DELAY \<and> triac_on (run evs s) = triac_on s \<and>
         counter (run evs s) = 0"
proof -
  obtain es e where evs: "evs = es @ [e]" using assms(4) by (metis rev_exhaust)
  let ?t = "run es s"
  have len: "unat (counter s) + length es = 7" using assms(3) evs by simp
  then have ph: "state ?t = S_ZC_OFFSET" "unat (counter ?t) = 7" "triac_on ?t = triac_on s"
    using offset_phase [OF assms(1,2), of es] by simp_all
  have nc: "\<not> calibMode ?t" using assms(1) by (simp add: run_frame)
  have "unat (counter (step e ?t)) = 0"
    using step_offset [OF nc ph(1), of e] ph(2) by simp
  then have "counter (step e ?t) = 0" by (simp add: unat_eq_0)
  then show ?thesis using step_offset [OF nc ph(1), of e] ph(2,3) by (simp add: evs run_snoc)
qed

lemma hold_dim: "dimValue (run (hold pins) s) = dimValue s"
  by (induction pins arbitrary: s) (simp_all add: hold_simps step_hold_dim)

lemma delay_phase:
  assumes "\<not> calibMode s" "state s = S_DELAY"
    and "unat (counter s) + length pins < unat (dimValue s)"
    and "unat (counter s) + length pins < 210"
  shows "state (run (hold pins) s) = S_DELAY \<and> triac_on (run (hold pins) s) = triac_on s \<and>
         unat (counter (run (hold pins) s)) = unat (counter s) + length pins"
  using assms
proof (induction pins arbitrary: s)
  case Nil
  then show ?case by (simp add: hold_simps)
next
  case (Cons p ps)
  have c: "unat (counter s) + 1 < unat (dimValue s)" "unat (counter s) + 1 < 210"
    using Cons.prems by simp_all
  then have c210: "unat (counter s) < 210" by simp
  note st = step_delay_hold [OF Cons.prems(1,2) c210, of p]
  let ?t = "step (p, None) s"
  have "state (run (hold ps) ?t) = S_DELAY \<and>
        triac_on (run (hold ps) ?t) = triac_on ?t \<and>
        unat (counter (run (hold ps) ?t)) = unat (counter ?t) + length ps"
    using Cons.prems c st by (intro Cons.IH) (simp_all add: step_frame step_hold_dim)
  then show ?case using st c by (simp add: hold_simps)
qed

lemma delay_fire:
  assumes "\<not> calibMode s" "state s = S_DELAY"
    and "unat (counter s) + length pins = unat (dimValue s)"
    and "unat (dimValue s) \<le> 210" "pins \<noteq> []"
  shows "state (run (hold pins) s) = S_TRIGGER \<and> triac_on (run (hold pins) s) \<and>
         counter (run (hold pins) s) = 0"
proof -
  obtain ps p where pins: "pins = ps @ [p]" using assms(5) by (metis rev_exhaust)
  let ?t = "run (hold ps) s"
  have len: "unat (counter s) + length ps < unat (dimValue s)" "unat (counter s) + length ps < 210"
    using assms(3,4) pins by simp_all
  then have ph: "state ?t = S_DELAY" "unat (counter ?t) = unat (counter s) + length ps"
    using delay_phase [OF assms(1,2), of ps] by simp_all
  have nc: "\<not> calibMode ?t" using assms(1) by (simp add: run_frame)
  have c: "unat (counter ?t) < 210" using ph(2) len by simp
  have d: "unat (counter ?t) + 1 = unat (dimValue ?t)"
    using ph(2) assms(3) pins by (simp add: hold_dim)
  note st = step_delay_hold [OF nc ph(1) c, of p]
  have "unat (counter (step (p, None) ?t)) = 0" using st(3) d by simp
  then have "counter (step (p, None) ?t) = 0" by (simp add: unat_eq_0)
  then show ?thesis using st(1,2) d by (simp add: pins hold_simps run_snoc)
qed

lemma delay_timeout:
  assumes "\<not> calibMode s" "state s = S_DELAY"
    and "unat (counter s) + length pins = 210"
    and "210 < unat (dimValue s)" "pins \<noteq> []"
  shows "state (run (hold pins) s) = S_IDLE \<and> \<not> triac_on (run (hold pins) s) \<and>
         unat (counter (run (hold pins) s)) = 210"
proof -
  obtain ps p where pins: "pins = ps @ [p]" using assms(5) by (metis rev_exhaust)
  let ?t = "run (hold ps) s"
  have len: "unat (counter s) + length ps < unat (dimValue s)" "unat (counter s) + length ps < 210"
    using assms(3,4) pins by simp_all
  then have ph: "state ?t = S_DELAY" "unat (counter ?t) = unat (counter s) + length ps"
    using delay_phase [OF assms(1,2), of ps] by simp_all
  have nc: "\<not> calibMode ?t" using assms(1) by (simp add: run_frame)
  have c: "unat (counter ?t) < 210" using ph(2) len by simp
  have d: "unat (counter ?t) + 1 = 210" "unat (counter ?t) + 1 < unat (dimValue ?t)"
    using ph(2) assms(3,4) pins by (simp_all add: hold_dim)
  note st = step_delay_hold [OF nc ph(1) c, of p]
  show ?thesis using st d by (simp add: pins hold_simps run_snoc)
qed

subsection \<open>The state after set-up\<close>

lemma calc_maxDim_range: "156 \<le> uint (calc_maxDim a) \<and> uint (calc_maxDim a) \<le> 195"
  by (simp add: calc_maxDim_def Let_def MAX_DIM_MARGIN_def MAX_DIM_MIN_def MAX_DIM_MAX_def
      uint_word_of_int)

lemma calc_minDim_range: "50 \<le> uint (calc_minDim a) \<and> uint (calc_minDim a) \<le> 80"
  by (simp add: calc_minDim_def Let_def MIN_DIM_BASE_def MIN_DIM_MIN_def MIN_DIM_MAX_def
      uint_word_of_int)

lemma setup_fields:
  assumes "setup_calib edges s = Some s'"
  shows "\<not> calibMode s'" "\<not> triac_on s'" "state s' = state s" "counter s' = counter s"
    "lastPin s' = lastPin s" "zcTimer s' = zcTimer s" "dimValue s' = dimValue s"
    "\<exists>a. maxDim s' = calc_maxDim a \<and> minDim s' = calc_minDim a"
  using assms
  by (auto simp add: setup_calib_def Let_def triac_on_def pin_defs bit_simps
      split: option.splits prod.splits)

lemma setup_inv:
  assumes "setup_calib edges (power_on portb) = Some s0"
  shows "inv_normal s0"
  using setup_fields [OF assms]
  by (simp add: inv_normal_def power_on_def state_defs)

lemma setup_bounds:
  assumes "setup_calib edges s = Some s0"
  shows "50 \<le> unat (minDim s0)" "unat (minDim s0) \<le> 80"
    "156 \<le> unat (maxDim s0)" "unat (maxDim s0) \<le> 195"
proof -
  obtain a where a: "maxDim s0 = calc_maxDim a" "minDim s0 = calc_minDim a"
    using setup_fields(8) [OF assms] by blast
  have "int (unat (minDim s0)) = uint (calc_minDim a)" "int (unat (maxDim s0)) = uint (calc_maxDim a)"
    by (simp_all add: a)
  then show "50 \<le> unat (minDim s0)" "unat (minDim s0) \<le> 80"
    "156 \<le> unat (maxDim s0)" "unat (maxDim s0) \<le> 195"
    using calc_maxDim_range [of a] calc_minDim_range [of a] by linarith+
qed

lemma reachable_inv:
  assumes "setup_calib edges (power_on portb) = Some s0" "s = run pre s0"
  shows "inv_normal s"
  using assms by (simp add: inv_run setup_inv)

subsection \<open>Set-up on the 60 Hz mains\<close>

lemma measure_60Hz: "measure_loop mains_60Hz i 0 0 = Some (1328, i + 8)"
  by (simp add: measure_loop.simps mains_60Hz_def)

lemma setup_60Hz: "setup_calib mains_60Hz (power_on 0) = Some calibrated_60Hz"
  by (simp add: setup_calib_def measure_60Hz Let_def power_on_def calibrated_60Hz_def
      calc_maxDim_def calc_minDim_def mains_60Hz_def MAX_DIM_MARGIN_def MAX_DIM_MIN_def
      MAX_DIM_MAX_def MIN_DIM_BASE_def MIN_DIM_MIN_def MIN_DIM_MAX_def)

subsection \<open>Firing and acceptance\<close>

lemma step_delay_fire:
  assumes "\<not> calibMode s" "state s = S_DELAY" "state (step e s) = S_TRIGGER"
  shows "triac_on (step e s)" "counter (step e s) = 0"
proof -
  obtain p w where e: "e = (p, w)" by (cases e)
  define t where "t = (case w of None \<Rightarrow> s | Some d \<Rightarrow> s\<lparr>dimValue := d\<rparr>)"
  have t: "\<not> calibMode t" "state t = S_DELAY"
    using assms(1,2) by (simp_all add: t_def split: option.split)
  have st: "step e s = TIMER1_COMPA_vect p t" by (simp add: step_def e t_def)
  have fire: "dimValue t \<le> counter t + 1"
  proof (rule ccontr)
    assume "\<not> dimValue t \<le> counter t + 1"
    then have "state (TIMER1_COMPA_vect p t) \<noteq> S_TRIGGER"
      using isr_delay(2) [OF t, of p] by (simp add: state_defs)
    with assms(3) st show False by simp
  qed
  show "triac_on (step e s)" "counter (step e s) = 0"
    using isr_delay(1,3) [OF t, of p] fire by (simp_all add: st)
qed

lemma accepted_step:
  assumes "zc_accepted PINB s"
  shows "state (TIMER1_COMPA_vect PINB s) = S_ZC_OFFSET"
    and "counter (TIMER1_COMPA_vect PINB s) = 0"
    and "triac_on (TIMER1_COMPA_vect PINB s) = triac_on s"
    and "zcTimer (TIMER1_COMPA_vect PINB s) = 0"
proof -
  have nc: "\<not> calibMode s" and idle: "state s = S_IDLE"
    using assms by (simp_all add: zc_accepted_def)
  show "state (TIMER1_COMPA_vect PINB s) = S_ZC_OFFSET"
    and "counter (TIMER1_COMPA_vect PINB s) = 0"
    and "triac_on (TIMER1_COMPA_vect PINB s) = triac_on s"
    using isr_idle [OF nc idle, of PINB] assms by simp_all
  show "zcTimer (TIMER1_COMPA_vect PINB s) = 0"
    using assms by (auto simp add: zc_accepted_def TIMER1_COMPA_vect_def Let_def split: if_splits)
qed

lemma onset_general:
  assumes nc: "\<not> calibMode s" and st: "state s = S_ZC_OFFSET" and c0: "counter s = 0"
    and off: "\<not> triac_on s"
    and d1: "1 \<le> unat (dimValue s)" and d2: "unat (dimValue s) \<le> 210"
    and len: "length pins = 8 + unat (dimValue s)"
  shows "(\<forall>k < length pins. \<not> triac_on (run (hold (take k pins)) s)) \<and>
         triac_on (run (hold pins) s) \<and> state (run (hold pins) s) = S_TRIGGER"
proof -
  let ?a = "take 8 pins" and ?b = "drop 8 pins"
  let ?m = "run (hold ?a) s"
  have la: "length ?a = 8" and lb: "length ?b = unat (dimValue s)" using len by simp_all
  have a_ne: "hold ?a \<noteq> []" using la by (auto simp add: hold_def)
  have m: "state ?m = S_DELAY \<and> triac_on ?m = triac_on s \<and> counter ?m = 0"
    using offset_end [OF nc st, of "hold ?a"] a_ne la c0 by (simp add: hold_simps)
  have ncm: "\<not> calibMode ?m" using nc by (simp add: run_frame)
  have dm: "dimValue ?m = dimValue s" by (rule hold_dim)
  have early: "\<not> triac_on (run (hold (take k pins)) s)" if "k < 8" for k
    using offset_phase [OF nc st, of "hold (take k pins)"] that len c0 off
    by (simp add: hold_simps)
  have split: "run (hold (take k pins)) s = run (hold (take (k - 8) ?b)) ?m" if "8 \<le> k" for k
  proof -
    have "take k pins = ?a @ take (k - 8) ?b"
      using that by (metis le_add_diff_inverse take_add)
    then show ?thesis by (simp add: hold_simps run_append)
  qed
  have late: "\<not> triac_on (run (hold (take k pins)) s)" if "8 \<le> k" "k < length pins" for k
  proof -
    have "unat (counter ?m) + length (take (k - 8) ?b) < unat (dimValue ?m)"
      and "unat (counter ?m) + length (take (k - 8) ?b) < 210"
      using that m lb len d2 dm by simp_all
    from delay_phase [OF ncm conjunct1 [OF m] this] m off show ?thesis
      by (simp add: split [OF that(1)])
  qed
  have b_ne: "?b \<noteq> []" using lb d1 by auto
  have "unat (counter ?m) + length ?b = unat (dimValue ?m)" "unat (dimValue ?m) \<le> 210"
    using m lb dm d2 by simp_all
  from delay_fire [OF ncm conjunct1 [OF m] this b_ne]
  have "triac_on (run (hold ?b) ?m) \<and> state (run (hold ?b) ?m) = S_TRIGGER" by simp
  moreover have "run (hold pins) s = run (hold ?b) ?m"
    using split [of "length pins"] len by simp
  ultimately have fin: "triac_on (run (hold pins) s) \<and> state (run (hold pins) s) = S_TRIGGER"
    by simp
  have "\<not> triac_on (run (hold (take k pins)) s)" if "k < length pins" for k
    using early [of k] late [of k] that by (cases "k < 8") simp_all
  with fin show ?thesis by simp
qed

subsection \<open>The debounce timer\<close>

lemma sat_inc_unat:
  "unat (if (z::u8) < 255 then z + 1 else z) = (if unat z < 255 then unat z + 1 else 255)"
proof -
  have "unat z < 256" using unsigned_less [of z] by simp
  then show ?thesis by (auto simp add: word_less_nat_alt u8_succ)
qed

lemma isr_timer:
  assumes "\<not> calibMode s"
  shows "unat (zcTimer (TIMER1_COMPA_vect p s)) \<le> unat (zcTimer s) + 1"
proof -
  have "zcTimer (TIMER1_COMPA_vect p s) = 0 \<or>
        zcTimer (TIMER1_COMPA_vect p s) = (if zcTimer s < 255 then zcTimer s + 1 else zcTimer s)"
    using assms by (simp add: TIMER1_COMPA_vect_def Let_def)
  then show ?thesis
  proof
    assume "zcTimer (TIMER1_COMPA_vect p s) = 0"
    then show ?thesis by simp
  next
    assume "zcTimer (TIMER1_COMPA_vect p s) = (if zcTimer s < 255 then zcTimer s + 1 else zcTimer s)"
    then have "unat (zcTimer (TIMER1_COMPA_vect p s)) = (if unat (zcTimer s) < 255 then unat (zcTimer s) + 1 else 255)"
      by (simp only: sat_inc_unat)
    then show ?thesis by (simp split: if_splits)
  qed
qed

lemma step_timer:
  assumes "\<not> calibMode s"
  shows "unat (zcTimer (step e s)) \<le> unat (zcTimer s) + 1"
proof (cases "snd e")
  case None
  then show ?thesis using isr_timer [OF assms, of "fst e"] by (simp add: step_def)
next
  case (Some d)
  have "\<not> calibMode (s\<lparr>dimValue := d\<rparr>)" using assms by simp
  from isr_timer [OF this, of "fst e"] Some show ?thesis by (simp add: step_def)
qed

lemma run_timer:
  assumes "\<not> calibMode s"
  shows "unat (zcTimer (run evs s)) \<le> unat (zcTimer s) + length evs"
  using assms
proof (induction evs arbitrary: s)
  case Nil
  then show ?case by simp
next
  case (Cons e es)
  have "\<not> calibMode (step e s)" using Cons.prems by (simp add: step_frame)
  from Cons.IH [OF this] step_timer [OF Cons.prems, of e] show ?case by simp
qed

lemma accepted_iff:
  assumes "\<not> calibMode s" "state s = S_IDLE"
  shows "state (TIMER1_COMPA_vect p s) = S_ZC_OFFSET \<longleftrightarrow> zc_accepted p s"
  using isr_idle(2) [OF assms, of p] by (simp add: state_defs)

lemma step_accept:
  assumes "\<not> calibMode s" "state s = S_IDLE" "state (step e s) = S_ZC_OFFSET"
  shows "zc_accepted (fst e) s" and "counter (step e s) = 0" and "zcTimer (step e s) = 0"
proof -
  define w where "w = (case snd e of None \<Rightarrow> s | Some d \<Rightarrow> s\<lparr>dimValue := d\<rparr>)"
  have w: "\<not> calibMode w" "state w = S_IDLE"
    using assms(1,2) by (simp_all add: w_def split: option.split)
  have same: "zc_accepted (fst e) w = zc_accepted (fst e) s"
    by (simp add: w_def zc_accepted_def split: option.split)
  have st: "step e s = TIMER1_COMPA_vect (fst e) w" by (simp add: step_def w_def)
  have acc: "zc_accepted (fst e) w" using accepted_iff [OF w, of "fst e"] assms(3) st by simp
  then show "zc_accepted (fst e) s" using same by simp
  show "counter (step e s) = 0" and "zcTimer (step e s) = 0"
    using accepted_step(2,4) [OF acc] st by simp_all
qed

subsection \<open>Bounded stay in the delay and trigger states\<close>

lemma step_delay:
  assumes "\<not> calibMode s" "state s = S_DELAY" "unat (counter s) < 210"
  shows "state (step e s) = S_DELAY \<or> state (step e s) = S_TRIGGER \<or> state (step e s) = S_IDLE"
    and "state (step e s) = S_DELAY \<Longrightarrow> unat (counter (step e s)) = unat (counter s) + 1"
proof -
  obtain p w where e: "e = (p, w)" by (cases e)
  define t where "t = (case w of None \<Rightarrow> s | Some d \<Rightarrow> s\<lparr>dimValue := d\<rparr>)"
  have t: "\<not> calibMode t" "state t = S_DELAY"
    using assms(1,2) by (simp_all add: t_def split: option.split)
  have c: "counter t = counter s" by (simp add: t_def split: option.split)
  have st: "step e s = TIMER1_COMPA_vect p t" by (simp add: step_def e t_def)
  show "state (step e s) = S_DELAY \<or> state (step e s) = S_TRIGGER \<or> state (step e s) = S_IDLE"
    using isr_delay(2) [OF t, of p] by (simp add: st)
  show "unat (counter (step e s)) = unat (counter s) + 1" if "state (step e s) = S_DELAY"
  proof -
    have "\<not> dimValue t \<le> counter t + 1"
      using that isr_delay(2) [OF t, of p] by (auto simp add: st state_defs split: if_splits)
    then have "counter (step e s) = counter s + 1"
      using isr_delay(3) [OF t, of p] c by (simp add: st)
    then show ?thesis using assms(3) by (simp add: u8_succ)
  qed
qed

lemma pulse_bounded:
  assumes "inv_normal s" "length evs = 10"
  shows "\<exists>k\<le>10. \<not> triac_on (run (take k evs) s)"
proof (cases "triac_on s")
  case False
  then have "\<not> triac_on (run (take 0 evs) s)" by simp
  then show ?thesis by blast
next
  case True
  then have st: "state s = S_TRIGGER" and c: "unat (counter s) < 10" and nc: "\<not> calibMode s"
    using assms(1) by (simp_all add: inv_normal_def)
  let ?n = "10 - unat (counter s)"
  have "unat (counter s) + length (take ?n evs) = 10" "take ?n evs \<noteq> []"
    using c assms(2) by auto
  from trigger_end [OF nc st this] have "\<not> triac_on (run (take ?n evs) s)" by simp
  moreover have "?n \<le> 10" by simp
  ultimately show ?thesis by blast
qed

lemma delay_bounded:
  assumes "inv_normal s" "state s = S_DELAY" "210 \<le> unat (counter s) + length evs"
  shows "\<exists>k. 1 \<le> k \<and> k \<le> length evs \<and>
           (\<forall>j<k. state (run (take j evs) s) = S_DELAY \<and> \<not> triac_on (run (take j evs) s)) \<and>
           (state (run (take k evs) s) = S_TRIGGER \<or>
            state (run (take k evs) s) = S_IDLE \<and> \<not> triac_on (run (take k evs) s))"
  using assms
proof (induction evs arbitrary: s)
  case Nil
  then show ?case by (simp add: inv_normal_def)
next
  case (Cons e es)
  let ?t = "step e s"
  have nc: "\<not> calibMode s" and c: "unat (counter s) < 210" and off: "\<not> triac_on s"
    using Cons.prems(1,2) by (auto simp add: inv_normal_def state_defs)
  have invt: "inv_normal ?t" using Cons.prems(1) by (rule inv_step)
  note sd = step_delay [OF nc Cons.prems(2) c, of e]
  show ?case
  proof (cases "state ?t = S_DELAY")
    case True
    have "210 \<le> unat (counter ?t) + length es" using sd(2) [OF True] Cons.prems(3) by simp
    from Cons.IH [OF invt True this] obtain k where k: "1 \<le> k" "k \<le> length es"
      "\<forall>j<k. state (run (take j es) ?t) = S_DELAY \<and> \<not> triac_on (run (take j es) ?t)"
      "state (run (take k es) ?t) = S_TRIGGER \<or>
       state (run (take k es) ?t) = S_IDLE \<and> \<not> triac_on (run (take k es) ?t)"
      by blast
    have "state (run (take j (e # es)) s) = S_DELAY \<and> \<not> triac_on (run (take j (e # es)) s)"
      if "j < Suc k" for j
      using that k(3) Cons.prems(2) off by (cases j) simp_all
    with k(1,2,4) have "1 \<le> Suc k \<and> Suc k \<le> length (e # es) \<and>
       (\<forall>j<Suc k. state (run (take j (e # es)) s) = S_DELAY \<and>
                   \<not> triac_on (run (take j (e # es)) s)) \<and>
       (state (run (take (Suc k) (e # es)) s) = S_TRIGGER \<or>
        state (run (take (Suc k) (e # es)) s) = S_IDLE \<and>
        \<not> triac_on (run (take (Suc k) (e # es)) s))"
      by simp
    then show ?thesis by blast
  next
    case False
    with sd(1) have ex: "state ?t = S_TRIGGER \<or> state ?t = S_IDLE" by simp
    have "state ?t = S_IDLE \<Longrightarrow> \<not> triac_on ?t"
      using invt by (auto simp add: inv_normal_def state_defs)
    with ex Cons.prems(2) off have "1 \<le> (1::nat) \<and> 1 \<le> length (e # es) \<and>
       (\<forall>j<1. state (run (take j (e # es)) s) = S_DELAY \<and>
               \<not> triac_on (run (take j (e # es)) s)) \<and>
       (state (run (take 1 (e # es)) s) = S_TRIGGER \<or>
        state (run (take 1 (e # es)) s) = S_IDLE \<and> \<not> triac_on (run (take 1 (e # es)) s))"
      by auto
    then show ?thesis by blast
  qed
qed

subsection \<open>The background loop\<close>

lemma sdiv_nonneg: "0 \<le> a \<Longrightarrow> 0 < b \<Longrightarrow> a sdiv b = a div (b::int)"
  by (simp add: signed_divide_int_def sgn_if)

lemma scale_range:
  assumes "0 \<le> p" "p \<le> 1023" "0 \<le> (D::int)"
  shows "0 \<le> p * D div 1023" "p * D div 1023 \<le> D"
proof -
  have nn: "0 \<le> p * D" using assms by simp
  then show "0 \<le> p * D div 1023" by (simp add: pos_imp_zdiv_nonneg_iff)
  have "p * D \<le> 1023 * D" using assms by (simp add: mult_right_mono)
  then have "p * D div 1023 \<le> 1023 * D div 1023" by (rule zdiv_mono1) simp
  then show "p * D div 1023 \<le> D" by simp
qed

lemma potScaled_clamp:
  "potScaled_of x = (clamp_spec x ADC_MIN ADC_MAX - ADC_MIN) * 1023 div (ADC_MAX - ADC_MIN)"
  by (simp add: potScaled_of_def clamp_spec_def ADC_MIN_def ADC_MAX_def sdiv_nonneg)

lemma potScaled_range: "0 \<le> potScaled_of x \<and> potScaled_of x \<le> 1023"
proof -
  let ?c = "clamp_spec x ADC_MIN ADC_MAX - ADC_MIN"
  have c: "0 \<le> ?c" "?c \<le> 819" by (simp_all add: clamp_spec_def ADC_MIN_def ADC_MAX_def)
  have "0 \<le> ?c * 1023 div 819" using c(1) by (simp add: pos_imp_zdiv_nonneg_iff)
  moreover have "?c * 1023 \<le> 819 * 1023" using c(2) by simp
  then have "?c * 1023 div 819 \<le> 819 * 1023 div 819" by (rule zdiv_mono1) simp
  ultimately show ?thesis by (simp add: potScaled_clamp ADC_MIN_def ADC_MAX_def)
qed

lemma loop_dimValue:
  "dimValue (loop adc s) =
     (if ADC_OFF \<le> sint adc then DIM_OFF
      else word_of_int (map_long (potScaled_of (sint adc)) 0 1023 (uint (minDim s)) (uint (maxDim s))))"
  by (simp add: loop_def Let_def potScaled_of_def)

lemma loop_write: "loop adc s = s\<lparr>dimValue := dimValue (loop adc s)\<rparr>"
  by (simp add: loop_def Let_def)

lemma map_long_range:
  assumes "0 \<le> p" "p \<le> 1023" "m \<le> M"
  shows "map_long p 0 1023 m M = m + p * (M - m) div 1023"
    and "m \<le> map_long p 0 1023 m M" and "map_long p 0 1023 m M \<le> M"
proof -
  have nn: "0 \<le> p * (M - m)" using assms by simp
  show eq: "map_long p 0 1023 m M = m + p * (M - m) div 1023"
    using nn by (simp add: map_long_def sdiv_nonneg)
  have "0 \<le> M - m" using assms(3) by simp
  from scale_range [OF assms(1,2) this]
  show "m \<le> map_long p 0 1023 m M" and "map_long p 0 1023 m M \<le> M"
    unfolding eq by simp_all
qed

subsection \<open>The measurement loop\<close>

lemma accepted_samples_empty: "accepted_samples edges i i = []"
  by (simp add: accepted_samples_def)

lemma accepted_samples_first:
  "i < n \<Longrightarrow> accepted_samples edges i n = sample_at edges i @ accepted_samples edges (i + 1) n"
  by (simp add: accepted_samples_def upt_conv_Cons)

lemma accepted_samples_none: "n \<le> i \<Longrightarrow> accepted_samples edges i n = []"
  by (simp add: accepted_samples_def)

lemma accepted_in_window:
  "x \<in> set (accepted_samples edges i n) \<Longrightarrow> 140 \<le> x \<and> x \<le> 220"
  by (auto simp add: accepted_samples_def sample_at_def split: option.splits if_splits)

lemma measure_loop_result:
  assumes "measure_loop edges i periodSum samples = Some y"
  shows "i \<le> snd y \<and> (\<forall>j. i \<le> j \<and> j < snd y \<longrightarrow> edges j \<noteq> None) \<and>
         fst y = periodSum + sum_list (accepted_samples edges i (snd y)) \<and>
         (unat samples \<le> 8 \<longrightarrow> unat samples + length (accepted_samples edges i (snd y)) = 8)"
proof -
  let ?P = "\<lambda>edges i periodSum (samples::u8) (y::u16 \<times> nat).
         i \<le> snd y \<and> (\<forall>j. i \<le> j \<and> j < snd y \<longrightarrow> edges j \<noteq> None) \<and>
         fst y = periodSum + sum_list (accepted_samples edges i (snd y)) \<and>
         (unat samples \<le> 8 \<longrightarrow> unat samples + length (accepted_samples edges i (snd y)) = 8)"
  have "?P edges i periodSum samples y"
  proof (rule measure_loop.raw_induct [where P = ?P, OF _ assms])
    fix f :: "(nat \<Rightarrow> u16 option) \<Rightarrow> nat \<Rightarrow> u16 \<Rightarrow> u8 \<Rightarrow> (u16 \<times> nat) option"
      and edges i periodSum samples y
    assume IH: "\<And>edges i periodSum samples y. f edges i periodSum samples = Some y \<Longrightarrow>
                  ?P edges i periodSum samples y"
      and body: "(if samples < 8
                  then case edges i of None \<Rightarrow> None
                       | Some ticks \<Rightarrow>
                           if 140 \<le> ticks \<and> ticks \<le> 220
                           then f edges (i + 1) (periodSum + ticks) (samples + 1)
                           else f edges (i + 1) periodSum samples
                  else Some (periodSum, i)) = Some y"
    show "?P edges i periodSum samples y"
    proof (cases "samples < 8")
      case False
      then have y: "y = (periodSum, i)" using body by simp
      have "8 \<le> unat samples" using False by (simp add: word_less_nat_alt)
      then show ?thesis by (auto simp add: y accepted_samples_empty)
    next
      case True
      then have s: "unat samples < 8" by (simp add: word_less_nat_alt)
      then have s1: "unat (samples + 1) = unat samples + 1" by (simp add: u8_succ)
      from True body obtain ticks where t: "edges i = Some ticks"
        by (cases "edges i") simp_all
      show ?thesis
      proof (cases "140 \<le> ticks \<and> ticks \<le> 220")
        case True
        then have sa: "sample_at edges i = [ticks]" by (simp add: sample_at_def t)
        have "f edges (i + 1) (periodSum + ticks) (samples + 1) = Some y"
          using body \<open>samples < 8\<close> t True by simp
        from IH [OF this] s s1 have ih: "i + 1 \<le> snd y"
          "\<forall>j. i + 1 \<le> j \<and> j < snd y \<longrightarrow> edges j \<noteq> None"
          "fst y = periodSum + ticks + sum_list (accepted_samples edges (i + 1) (snd y))"
          "unat samples + 1 + length (accepted_samples edges (i + 1) (snd y)) = 8"
          by simp_all
        have lt: "i < snd y" using ih(1) by simp
        have all: "edges j \<noteq> None" if "i \<le> j" "j < snd y" for j
          using that ih(2) t by (cases "j = i") simp_all
        show ?thesis
          using ih(3,4) lt all by (simp add: accepted_samples_first [OF lt] sa add.assoc)
      next
        case False
        then have sa: "sample_at edges i = []" by (auto simp add: sample_at_def t)
        have "f edges (i + 1) periodSum samples = Some y"
          using body \<open>samples < 8\<close> t False by auto
        from IH [OF this] s have ih: "i + 1 \<le> snd y"
          "\<forall>j. i + 1 \<le> j \<and> j < snd y \<longrightarrow> edges j \<noteq> None"
          "fst y = periodSum + sum_list (accepted_samples edges (i + 1) (snd y))"
          "unat samples + length (accepted_samples edges (i + 1) (snd y)) = 8"
          by simp_all
        have lt: "i < snd y" using ih(1) by simp
        have all: "edges j \<noteq> None" if "i \<le> j" "j < snd y" for j
          using that ih(2) t by (cases "j = i") simp_all
        show ?thesis
          using ih(3,4) lt all by (simp add: accepted_samples_first [OF lt] sa)
      qed
    qed
  qed
  then show ?thesis .
qed

lemma measure_loop_terminates:
  assumes "\<forall>j. i \<le> j \<and> j < n \<longrightarrow> edges j \<noteq> None"
    and "8 \<le> unat samples + length (accepted_samples edges i n)"
  shows "measure_loop edges i periodSum samples \<noteq> None"
  using assms
proof (induction "n - i" arbitrary: i periodSum samples)
  case 0
  then have "accepted_samples edges i n = []" by (simp add: accepted_samples_none)
  with "0.prems"(2) have "\<not> samples < 8" by (simp add: word_less_nat_alt)
  then show ?case by (simp add: measure_loop.simps)
next
  case (Suc d)
  show ?case
  proof (cases "samples < 8")
    case False
    then show ?thesis by (simp add: measure_loop.simps)
  next
    case True
    then have s1: "unat (samples + 1) = unat samples + 1"
      by (simp add: word_less_nat_alt u8_succ)
    have lt: "i < n" using Suc.hyps(2) by simp
    then obtain ticks where t: "edges i = Some ticks" using Suc.prems(1) by auto
    have d: "d = n - (i + 1)" using Suc.hyps(2) by simp
    have all: "\<forall>j. i + 1 \<le> j \<and> j < n \<longrightarrow> edges j \<noteq> None" using Suc.prems(1) by simp
    show ?thesis
    proof (cases "140 \<le> ticks \<and> ticks \<le> 220")
      case True
      then have sa: "sample_at edges i = [ticks]" by (simp add: sample_at_def t)
      have "8 \<le> unat (samples + 1) + length (accepted_samples edges (i + 1) n)"
        using Suc.prems(2) by (simp add: accepted_samples_first [OF lt] sa s1)
      from Suc.hyps(1) [OF d all this, of "periodSum + ticks"] show ?thesis
        by (subst measure_loop.simps) (simp add: \<open>samples < 8\<close> t True)
    next
      case False
      then have sa: "sample_at edges i = []" by (auto simp add: sample_at_def t)
      have "8 \<le> unat samples + length (accepted_samples edges (i + 1) n)"
        using Suc.prems(2) by (simp add: accepted_samples_first [OF lt] sa)
      from Suc.hyps(1) [OF d all this, of periodSum] False show ?thesis
        by (subst measure_loop.simps) (auto simp add: \<open>samples < 8\<close> t)
    qed
  qed
qed

lemma no_glitch_accepted: "accepted_samples glitches_only i n = []"
  by (simp add: accepted_samples_def sample_at_def glitches_only_def)

lemma accepted_samples_length: "length (accepted_samples edges i n) \<le> n - i"
proof -
  have "length (concat (map (sample_at edges) xs)) \<le> length xs" for xs
    by (induction xs) (auto simp add: sample_at_def split: option.split)
  from this [of "[i..<n]"] show ?thesis by (simp add: accepted_samples_def)
qed

lemma mains_lost_short:
  assumes "\<forall>j. 1 \<le> j \<and> j < n \<longrightarrow> mains_lost j \<noteq> None"
  shows "length (accepted_samples mains_lost 1 n) < 8"
proof -
  have "n \<le> 5"
  proof (rule ccontr)
    assume "\<not> n \<le> 5"
    then have "mains_lost 5 \<noteq> None" using assms by simp
    then show False by (simp add: mains_lost_def)
  qed
  then show ?thesis using accepted_samples_length [of mains_lost 1 n] by simp
qed

subsection \<open>The calibration arithmetic\<close>

text \<open>
  The \<open>int16_t\<close> values of \<open>setup()\<close> and the \<open>long\<close> values of \<open>loop()\<close> and \<open>map\<close> stay
  inside their types, so computing them on unbounded integers loses nothing.
\<close>

lemma int16_exact:
  "- 32768 \<le> uint (a::u8) - 9" "uint (a::u8) - 9 \<le> 32767"
  "0 \<le> uint a * 62" "uint a * 62 \<le> 32767"
proof -
  have "0 \<le> uint a" "uint a < 256" using uint_lt2p [of a] by simp_all
  then show "- 32768 \<le> uint a - 9" "uint a - 9 \<le> 32767" "0 \<le> uint a * 62"
    "uint a * 62 \<le> 32767"
    by simp_all
qed

lemma long_exact:
  assumes "61 < x" "x < 880"
  shows "0 \<le> (x - ADC_MIN) * 1023" "(x - ADC_MIN) * 1023 < 2 ^ 31"
    and "\<bar>potScaled_of x * (uint (M::u8) - uint (m::u8))\<bar> < 2 ^ 31"
proof -
  show "0 \<le> (x - ADC_MIN) * 1023" "(x - ADC_MIN) * 1023 < 2 ^ 31"
    using assms by (simp_all add: ADC_MIN_def)
  have p: "0 \<le> potScaled_of x" "potScaled_of x \<le> 1023" using potScaled_range [of x] by simp_all
  have "0 \<le> uint M" "uint M < 256" "0 \<le> uint m" "uint m < 256"
    using uint_lt2p [of M] uint_lt2p [of m] by simp_all
  then have "\<bar>uint M - uint m\<bar> \<le> 255" by linarith
  then have "\<bar>potScaled_of x\<bar> * \<bar>uint M - uint m\<bar> \<le> 1023 * 255"
    using p by (intro mult_mono) simp_all
  then show "\<bar>potScaled_of x * (uint M - uint m)\<bar> < 2 ^ 31" by (simp add: abs_mult)
qed

lemma calc_maxDim_spec: "uint (calc_maxDim a) = clamp_spec (uint a - 9) 156 195"
  by (simp add: calc_maxDim_def Let_def MAX_DIM_MARGIN_def MAX_DIM_MIN_def MAX_DIM_MAX_def
      uint_word_of_int clamp_spec_def)

lemma calc_minDim_spec: "uint (calc_minDim a) = clamp_spec (uint a * 62 div 166 - 1) 50 80"
proof -
  have "uint a * 62 sdiv 166 = uint a * 62 div 166" by (rule sdiv_nonneg) simp_all
  then show ?thesis
    by (simp add: calc_minDim_def Let_def MIN_DIM_BASE_def MIN_DIM_MIN_def MIN_DIM_MAX_def
        uint_word_of_int clamp_spec_def)
qed

lemma unat_sum_list:
  "sum_list (map unat xs) < 65536 \<Longrightarrow> unat (sum_list xs :: u16) = sum_list (map unat xs)"
proof (induction xs)
  case Nil
  then show ?case by simp
next
  case (Cons x xs)
  then have ih: "unat (sum_list xs) = sum_list (map unat xs)" by simp
  have "unat x + unat (sum_list xs) < 2 ^ LENGTH(16)" using Cons.prems ih by simp
  then have "unat (x + sum_list xs) = unat x + unat (sum_list xs)"
    by (simp only: unat_add_lem [THEN iffD1])
  then show ?case using ih by simp
qed

lemma window_sum_bound:
  assumes "\<forall>x \<in> set xs. unat (x::u16) \<le> 220"
  shows "sum_list (map unat xs) \<le> 220 * length xs"
  using assms by (induction xs) auto

lemma avgPeriod_exact:
  assumes "length xs = 8" "\<forall>x \<in> set xs. unat (x::u16) \<le> 220"
  shows "uint (ucast (sum_list xs div 8) :: u8) = int (sum_list (map unat xs) div 8)"
proof -
  have b: "sum_list (map unat xs) \<le> 1760" using window_sum_bound [OF assms(2)] assms(1) by simp
  then have u: "unat (sum_list xs) = sum_list (map unat xs)" by (intro unat_sum_list) simp
  have "unat (sum_list xs div 8) = sum_list (map unat xs) div 8"
    by (simp add: unat_div u)
  moreover have "sum_list (map unat xs) div 8 < 256" using b by simp
  ultimately have "unat (ucast (sum_list xs div 8) :: u8) = sum_list (map unat xs) div 8"
    by (simp add: unsigned_ucast_eq take_bit_nat_eq_self)
  then show ?thesis by (simp only: uint_nat)
qed

lemma setup_result:
  assumes "setup_calib edges s = Some s'" "measure_loop edges 1 0 0 = Some (periodSum, n)"
  shows "maxDim s' = calc_maxDim (ucast (periodSum div 8))"
    and "minDim s' = calc_minDim (ucast (periodSum div 8))"
  using assms by (auto simp add: setup_calib_def Let_def split: option.splits)

lemma accepted_samples_split:
  assumes "i \<le> m" "m \<le> n"
  shows "accepted_samples edges i n = accepted_samples edges i m @ accepted_samples edges m n"
proof -
  have "[i..<n] = [i..<m] @ [m..<n]"
    using assms by (metis le_Suc_ex upt_add_eq_append)
  then show ?thesis by (simp add: accepted_samples_def)
qed

lemma first_eight:
  assumes "measure_loop edges 1 0 0 = Some (periodSum, m)"
    and "8 \<le> length (accepted_samples edges 1 n)"
  shows "accepted_samples edges 1 m = take 8 (accepted_samples edges 1 n)"
proof -
  have m: "1 \<le> m" "length (accepted_samples edges 1 m) = 8"
    using measure_loop_result [OF assms(1)] by simp_all
  show ?thesis
  proof (cases "m \<le> n")
    case True
    from accepted_samples_split [OF m(1) True, of edges] m(2) show ?thesis by simp
  next
    case False
    have "1 \<le> n"
    proof (rule ccontr)
      assume "\<not> 1 \<le> n"
      then have "accepted_samples edges 1 n = []" by (simp add: accepted_samples_none)
      with assms(2) show False by simp
    qed
    moreover have "n \<le> m" using False by simp
    ultimately have sp: "accepted_samples edges 1 m =
        accepted_samples edges 1 n @ accepted_samples edges n m"
      by (rule accepted_samples_split)
    then have "length (accepted_samples edges 1 n) + length (accepted_samples edges n m) = 8"
      using m(2) by simp
    with assms(2) have "length (accepted_samples edges n m) = 0"
      and "length (accepted_samples edges 1 n) = 8" by linarith+
    then show ?thesis using sp by simp
  qed
qed

lemma setup_returns:
  assumes "edges 0 \<noteq> None" and "\<forall>j. 1 \<le> j \<and> j < n \<longrightarrow> edges j \<noteq> None"
    and "8 \<le> length (accepted_samples edges 1 n)"
  shows "\<exists>s' periodSum m. setup_calib edges s = Some s' \<and> \<not> calibMode s' \<and>
           measure_loop edges 1 0 0 = Some (periodSum, m)"
proof -
  from assms(3) have "8 \<le> unat (0::u8) + length (accepted_samples edges 1 n)" by simp
  from measure_loop_terminates [OF assms(2) this, of 0]
  obtain periodSum m where "measure_loop edges 1 0 0 = Some (periodSum, m)"
    by (cases "measure_loop edges 1 0 0") auto
  then show ?thesis using assms(1)
    by (auto simp add: setup_calib_def Let_def split: option.splits)
qed

subsection \<open>The tick counter in calibration mode\<close>

lemma calib_count:
  assumes "calibMode s"
  shows "calibMode (fold TIMER1_COMPA_vect pins s) \<and>
         calibCounter (fold TIMER1_COMPA_vect pins s) = calibCounter s + of_nat (length pins)"
  using assms
proof (induction pins arbitrary: s)
  case Nil
  then show ?case by simp
next
  case (Cons p ps)
  have 1: "calibMode (TIMER1_COMPA_vect p s)"
    and 2: "calibCounter (TIMER1_COMPA_vect p s) = calibCounter s + 1"
    using Cons.prems by (simp_all add: TIMER1_COMPA_vect_def)
  from Cons.IH [OF 1] 2 show ?case by (simp add: add.assoc add.commute)
qed

lemma calib_reading_wraps: "calib_reading g = of_nat g"
  using calib_count [of "power_on 0" "replicate g 0"]
  by (simp add: calib_reading_def power_on_def)

lemma reading_65702: "calib_reading 65702 = 166"
  by (simp add: calib_reading_wraps)

lemma setup_values:
  assumes "setup_calib edges s = Some s'"
    and "measure_loop edges 1 0 0 = Some (periodSum, n)"
  shows "length (accepted_samples edges 1 n) = 8 \<and>
         uint (maxDim s') =
           clamp_spec (avgPeriod_spec (accepted_samples edges 1 n) - 9) 156 195 \<and>
         uint (minDim s') =
           clamp_spec (avgPeriod_spec (accepted_samples edges 1 n) * 62 div 166 - 1) 50 80 \<and>
         ((\<forall>x \<in> set (accepted_samples edges 1 n). x = 166) \<longrightarrow>
            maxDim s' = 157 \<and> minDim s' = 61)"
proof -
  let ?xs = "accepted_samples edges 1 n"
  have res: "periodSum = sum_list ?xs" and len: "length ?xs = 8"
    using measure_loop_result [OF assms(2)] by simp_all
  have win: "\<forall>x \<in> set ?xs. unat x \<le> 220"
    using accepted_in_window [of _ edges 1 n] by (auto simp add: word_le_nat_alt)
  have avg: "uint (ucast (periodSum div 8) :: u8) = avgPeriod_spec ?xs"
    unfolding res avgPeriod_spec_def zdiv_int [symmetric] using avgPeriod_exact [OF len win]
    by simp
  have mx: "uint (maxDim s') = clamp_spec (avgPeriod_spec ?xs - 9) 156 195"
    using setup_result(1) [OF assms] by (simp add: calc_maxDim_spec avg)
  have mn: "uint (minDim s') = clamp_spec (avgPeriod_spec ?xs * 62 div 166 - 1) 50 80"
    using setup_result(2) [OF assms] by (simp add: calc_minDim_spec avg)
  have nominal: "maxDim s' = 157 \<and> minDim s' = 61" if "\<forall>x \<in> set ?xs. x = 166"
  proof -
    have "?xs = replicate (length ?xs) 166" using that by (simp add: replicate_length_same)
    then have "?xs = replicate 8 166" using len by simp
    then have "sum_list (map unat ?xs) = 1328" by (simp add: sum_list_replicate)
    then have a: "avgPeriod_spec ?xs = 166" by (simp add: avgPeriod_spec_def)
    have "uint (maxDim s') = uint (157 :: u8)" "uint (minDim s') = uint (61 :: u8)"
      using mx [unfolded a] mn [unfolded a] by (simp_all add: clamp_spec_def)
    then show ?thesis by (simp only: word_uint_eq_iff)
  qed
  from len mx mn nominal show ?thesis by blast
qed

lemma noisy_samples: "accepted_samples noisy_mains 1 14 = replicate 9 166"
  by code_simp

subsection \<open>The loop on readings and on tick counts\<close>

text \<open>
  On the readings: the loop, started with \<open>periodSum = 0\<close> and \<open>samples = 0\<close> at edge \<open>i\<close>,
  returns exactly when some finite stretch of edges from \<open>i\<close> on all arrive and at least 8
  of their readings are inside \<open>[140, 220]\<close>; otherwise it never returns. When it returns
  after the edges \<open>i, \<dots>, n - 1\<close>, exactly 8 of their readings lie in the window and
  \<open>periodSum\<close> is the sum of those 8.
\<close>

lemma measure_loop_on_readings:
  "(measure_loop edges i 0 0 \<noteq> None \<longleftrightarrow>
      (\<exists>n. (\<forall>j. i \<le> j \<and> j < n \<longrightarrow> edges j \<noteq> None) \<and>
           8 \<le> length (accepted_samples edges i n))) \<and>
   (\<forall>periodSum n. measure_loop edges i 0 0 = Some (periodSum, n) \<longrightarrow>
      length (accepted_samples edges i n) = 8 \<and>
      periodSum = sum_list (accepted_samples edges i n) \<and>
      (\<forall>x \<in> set (accepted_samples edges i n). 140 \<le> x \<and> x \<le> 220))"
proof -
  have res: "length (accepted_samples edges i n) = 8 \<and>
      periodSum = sum_list (accepted_samples edges i n) \<and>
      (\<forall>x \<in> set (accepted_samples edges i n). 140 \<le> x \<and> x \<le> 220) \<and>
      (\<forall>j. i \<le> j \<and> j < n \<longrightarrow> edges j \<noteq> None)"
    if "measure_loop edges i 0 0 = Some (periodSum, n)" for periodSum n
    using measure_loop_result [OF that] accepted_in_window [of _ edges i n] by simp
  have fwd: "\<exists>n. (\<forall>j. i \<le> j \<and> j < n \<longrightarrow> edges j \<noteq> None) \<and>
           8 \<le> length (accepted_samples edges i n)"
    if "measure_loop edges i 0 0 \<noteq> None"
  proof -
    from that obtain periodSum n where "measure_loop edges i 0 0 = Some (periodSum, n)"
      by (cases "measure_loop edges i 0 0") auto
    from res [OF this] have "(\<forall>j. i \<le> j \<and> j < n \<longrightarrow> edges j \<noteq> None) \<and>
           8 \<le> length (accepted_samples edges i n)" by simp
    then show ?thesis by blast
  qed
  have bwd: "measure_loop edges i 0 0 \<noteq> None"
    if "\<exists>n. (\<forall>j. i \<le> j \<and> j < n \<longrightarrow> edges j \<noteq> None) \<and>
           8 \<le> length (accepted_samples edges i n)"
  proof -
    from that obtain n where n: "\<forall>j. i \<le> j \<and> j < n \<longrightarrow> edges j \<noteq> None"
      "8 \<le> length (accepted_samples edges i n)" by blast
    from n(2) have "8 \<le> unat (0::u8) + length (accepted_samples edges i n)" by simp
    from measure_loop_terminates [OF n(1) this] show ?thesis .
  qed
  from res fwd bwd show ?thesis by blast
qed

lemma measure_loop_examples:
  "measure_loop noisy_mains 1 0 0 = Some (1328, 12) \<and>
   length (accepted_samples noisy_mains 1 12) = 8 \<and>
   sum_list (accepted_samples noisy_mains 1 12) = 1328 \<and>
   measure_loop glitches_only 1 0 0 = None \<and>
   measure_loop mains_lost 1 0 0 = None"
proof -
  have 1: "measure_loop noisy_mains 1 0 0 = Some (1328, 12)"
    by (simp add: measure_loop.simps noisy_mains_def)
  note th = measure_loop_on_readings [of noisy_mains 1, THEN conjunct2, THEN spec, THEN spec,
      THEN mp, OF 1]
  have 2: "\<not> (\<exists>n. (\<forall>j. 1 \<le> j \<and> j < n \<longrightarrow> glitches_only j \<noteq> None) \<and>
           8 \<le> length (accepted_samples glitches_only 1 n))"
    by (simp add: no_glitch_accepted)
  have 3: "measure_loop glitches_only 1 0 0 = None"
    using measure_loop_on_readings [of glitches_only 1, THEN conjunct1] 2 by blast
  have 4: "\<not> (\<exists>n. (\<forall>j. 1 \<le> j \<and> j < n \<longrightarrow> mains_lost j \<noteq> None) \<and>
           8 \<le> length (accepted_samples mains_lost 1 n))"
  proof
    assume "\<exists>n. (\<forall>j. 1 \<le> j \<and> j < n \<longrightarrow> mains_lost j \<noteq> None) \<and>
           8 \<le> length (accepted_samples mains_lost 1 n)"
    then obtain n where n: "\<forall>j. 1 \<le> j \<and> j < n \<longrightarrow> mains_lost j \<noteq> None"
      "8 \<le> length (accepted_samples mains_lost 1 n)" by blast
    from mains_lost_short [OF n(1)] n(2) show False by simp
  qed
  have 5: "measure_loop mains_lost 1 0 0 = None"
    using measure_loop_on_readings [of mains_lost 1, THEN conjunct1] 4 by blast
  show ?thesis
    using 1 th [THEN conjunct1] th [THEN conjunct2, THEN conjunct1, symmetric] 3 5
    by (intro conjI) assumption+
qed

lemma reading_below_wrap:
  assumes "g < 65536"
  shows "unat (calib_reading g) = g"
    and "(140 \<le> calib_reading g \<and> calib_reading g \<le> 220) = (140 \<le> g \<and> g \<le> 220)"
proof -
  show u: "unat (calib_reading g) = g"
    using assms by (simp add: calib_reading_wraps unat_of_nat)
  show "(140 \<le> calib_reading g \<and> calib_reading g \<le> 220) = (140 \<le> g \<and> g \<le> 220)"
    by (simp add: word_le_nat_alt u)
qed

lemma slow_mains_reads_60Hz: "readings_of slow_mains = mains_60Hz"
  by (rule ext) (simp add: readings_of_def slow_mains_def mains_60Hz_def reading_65702)

lemma slow_mains_no_sample: "window_gaps_spec slow_mains i n = []"
  by (simp add: window_gaps_spec_def slow_mains_def)

text \<open>
  As long as every gap is below 65536 ticks the readings are the tick counts, and the loop
  does what the window asks for: it returns exactly when 8 tick counts inside
  \<open>[140, 220]\<close> are supplied.
\<close>

lemma short_gaps_samples:
  assumes "\<forall>j g. gaps j = Some g \<longrightarrow> g < 65536"
  shows "length (accepted_samples (readings_of gaps) i n) = length (window_gaps_spec gaps i n)"
proof -
  let ?f = "sample_at (readings_of gaps)"
  let ?g = "\<lambda>j. case gaps j of None \<Rightarrow> [] | Some g \<Rightarrow> if 140 \<le> g \<and> g \<le> 220 then [g] else []"
  have pt: "length (?f j) = length (?g j)" for j
  proof (cases "gaps j")
    case None
    then show ?thesis by (simp add: sample_at_def readings_of_def)
  next
    case (Some g)
    then have "g < 65536" using assms by simp
    from reading_below_wrap(2) [OF this] Some show ?thesis
      by (simp add: sample_at_def readings_of_def)
  qed
  have "length (concat (map ?f xs)) = length (concat (map ?g xs))" for xs
    by (induction xs) (simp_all add: pt)
  then show ?thesis by (simp add: accepted_samples_def window_gaps_spec_def)
qed

lemma measure_loop_on_short_gaps:
  assumes "\<forall>j g. gaps j = Some g \<longrightarrow> g < 65536"
  shows "measure_loop (readings_of gaps) i 0 0 \<noteq> None \<longleftrightarrow>
           (\<exists>n. (\<forall>j. i \<le> j \<and> j < n \<longrightarrow> gaps j \<noteq> None) \<and>
                8 \<le> length (window_gaps_spec gaps i n))"
proof -
  have "readings_of gaps j \<noteq> None \<longleftrightarrow> gaps j \<noteq> None" for j
    by (simp add: readings_of_def)
  then show ?thesis
    using measure_loop_on_readings [of "readings_of gaps" i, THEN conjunct1]
    by (simp add: short_gaps_samples [OF assms])
qed

section \<open>The claims\<close>

subsection \<open>The output is never stuck on\<close>

text \<open>
  C1. In every state of a normal-mode execution (any sampled inputs, any writes to
  \<open>dimValue\<close>): the gate output is asserted only in state \<open>S_TRIGGER\<close>; among the state and
  the states after each of the next \<open>TRIGGER_PULSE_WIDTH\<close> ticks there is one with the
  output deasserted, so the output is never asserted for more than 10 ticks in a row; and
  from a state in \<open>S_DELAY\<close> the handler leaves \<open>S_DELAY\<close> within \<open>SAFETY_TIMEOUT\<close> ticks,
  the output being deasserted until then, either to \<open>S_TRIGGER\<close> or to \<open>S_IDLE\<close> with the
  output deasserted.
\<close>

theorem output_never_stuck:
  assumes "setup_calib edges (power_on portb) = Some s0" and "s = run pre s0"
  shows "(triac_on s \<longrightarrow> state s = S_TRIGGER) \<and>
         (\<forall>evs. length evs = unat TRIGGER_PULSE_WIDTH \<longrightarrow>
            (\<exists>k\<le>unat TRIGGER_PULSE_WIDTH. \<not> triac_on (run (take k evs) s))) \<and>
         (\<forall>evs. state s = S_DELAY \<and> length evs = unat SAFETY_TIMEOUT \<longrightarrow>
            (\<exists>k. 1 \<le> k \<and> k \<le> unat SAFETY_TIMEOUT \<and>
               (\<forall>j<k. state (run (take j evs) s) = S_DELAY \<and>
                       \<not> triac_on (run (take j evs) s)) \<and>
               (state (run (take k evs) s) = S_TRIGGER \<or>
                state (run (take k evs) s) = S_IDLE \<and> \<not> triac_on (run (take k evs) s))))"
proof -
  have inv: "inv_normal s" using assms by (rule reachable_inv)
  have a: "triac_on s \<longrightarrow> state s = S_TRIGGER" using inv by (simp add: inv_normal_def)
  have b: "\<exists>k\<le>unat TRIGGER_PULSE_WIDTH. \<not> triac_on (run (take k evs) s)"
    if "length evs = unat TRIGGER_PULSE_WIDTH" for evs
    using pulse_bounded [OF inv, of evs] that by (simp add: timing_defs)
  have c: "\<exists>k. 1 \<le> k \<and> k \<le> unat SAFETY_TIMEOUT \<and>
               (\<forall>j<k. state (run (take j evs) s) = S_DELAY \<and>
                       \<not> triac_on (run (take j evs) s)) \<and>
               (state (run (take k evs) s) = S_TRIGGER \<or>
                state (run (take k evs) s) = S_IDLE \<and> \<not> triac_on (run (take k evs) s))"
    if "state s = S_DELAY" "length evs = unat SAFETY_TIMEOUT" for evs
  proof -
    have "210 \<le> unat (counter s) + length evs" using that(2) by (simp add: timing_defs)
    from delay_bounded [OF inv that(1) this] that(2) show ?thesis by simp
  qed
  from a b c show ?thesis by blast
qed

theorem output_never_stuck_witness:
  "triac_on (run (edge_then_offset 1 @ [(0, None)]) calibrated_60Hz) \<and>
   state (run (edge_then_offset 1 @ [(0, None)]) calibrated_60Hz) = S_TRIGGER \<and>
   (\<exists>k\<le>unat TRIGGER_PULSE_WIDTH.
      \<not> triac_on (run (take k busy_ticks) (run (edge_then_offset 1 @ [(0, None)]) calibrated_60Hz))) \<and>
   state (run (edge_then_offset 255) calibrated_60Hz) = S_DELAY \<and>
   (\<exists>k. 1 \<le> k \<and> k \<le> unat SAFETY_TIMEOUT \<and>
      (state (run (take k (hold (replicate 210 4))) (run (edge_then_offset 255) calibrated_60Hz))
         = S_TRIGGER \<or>
       state (run (take k (hold (replicate 210 4))) (run (edge_then_offset 255) calibrated_60Hz))
         = S_IDLE \<and>
       \<not> triac_on (run (take k (hold (replicate 210 4)))
                    (run (edge_then_offset 255) calibrated_60Hz))))"
proof -
  let ?s = "run (edge_then_offset 1 @ [(0, None)]) calibrated_60Hz"
  let ?d = "run (edge_then_offset 255) calibrated_60Hz"
  have 1: "triac_on ?s" by code_simp
  have 2: "length busy_ticks = unat TRIGGER_PULSE_WIDTH"
    by (simp add: busy_ticks_def timing_defs)
  have 3: "state ?d = S_DELAY" by code_simp
  have 4: "state ?d = S_DELAY \<and> length (hold (replicate 210 4)) = unat SAFETY_TIMEOUT"
    using 3 by (simp add: hold_simps timing_defs)
  note ths = output_never_stuck [OF setup_60Hz refl, of "edge_then_offset 1 @ [(0, None)]"]
  note thd = output_never_stuck [OF setup_60Hz refl, of "edge_then_offset 255"]
  note trig = ths [THEN conjunct1, THEN mp, OF 1]
  note pulse = ths [THEN conjunct2, THEN conjunct1, THEN spec, of busy_ticks, THEN mp, OF 2]
  note delay = thd [THEN conjunct2, THEN conjunct2, THEN spec, of "hold (replicate 210 4)",
      THEN mp, OF 4]
  from delay have delay':
    "\<exists>k. 1 \<le> k \<and> k \<le> unat SAFETY_TIMEOUT \<and>
      (state (run (take k (hold (replicate 210 4))) ?d) = S_TRIGGER \<or>
       state (run (take k (hold (replicate 210 4))) ?d) = S_IDLE \<and>
       \<not> triac_on (run (take k (hold (replicate 210 4))) ?d))"
    by blast
  show ?thesis using 1 trig pulse 3 delay' by (intro conjI) assumption+
qed

subsection \<open>Trigger onset\<close>

text \<open>
  C2. In a normal-mode execution, let a tick accept a zero-cross edge (the handler goes from
  \<open>S_IDLE\<close> to \<open>S_ZC_OFFSET\<close>), with \<open>dimValue\<close> at that tick between the calibrated \<open>minDim\<close>
  and \<open>maxDim\<close> and not written during the half-cycle. Then the gate output is deasserted
  after each of the following \<open>ZC_OFFSET + dimValue - 1\<close> ticks, and the tick number
  \<open>ZC_OFFSET + dimValue\<close> after the accepting tick asserts it (entering \<open>S_TRIGGER\<close>). With
  \<open>dimValue = 80\<close> that is tick 88.
\<close>

theorem trigger_onset_exact:
  assumes "setup_calib edges (power_on portb) = Some s0" and "s = run pre s0"
    and "state s = S_IDLE" and "t = step e s" and "state t = S_ZC_OFFSET"
    and "minDim t \<le> dimValue t" and "dimValue t \<le> maxDim t"
    and "length pins = unat ZC_OFFSET + unat (dimValue t)"
  shows "(\<forall>k < length pins. \<not> triac_on (run (hold (take k pins)) t)) \<and>
         triac_on (run (hold pins) t) \<and> state (run (hold pins) t) = S_TRIGGER"
proof -
  have inv: "inv_normal s" using assms(1,2) by (rule reachable_inv)
  then have ncs: "\<not> calibMode s" by (simp add: inv_normal_def)
  have invt: "inv_normal t" unfolding assms(4) using inv by (rule inv_step)
  then have nc: "\<not> calibMode t" and off: "\<not> triac_on t"
    using assms(5) by (auto simp add: inv_normal_def state_defs)
  have c0: "counter t = 0" using step_accept(2) [OF ncs assms(3)] assms(4,5) by simp
  have "minDim t = minDim s0" "maxDim t = maxDim s0"
    by (simp_all add: assms(2,4) step_frame run_frame)
  then have lo: "50 \<le> unat (minDim t)" and hi: "unat (maxDim t) \<le> 195"
    using setup_bounds [OF assms(1)] by simp_all
  have d: "1 \<le> unat (dimValue t)" "unat (dimValue t) \<le> 210"
    using lo hi assms(6,7) by (simp_all add: word_le_nat_alt)
  have len: "length pins = 8 + unat (dimValue t)" using assms(8) by (simp add: timing_defs)
  from onset_general [OF nc assms(5) c0 off d len] show ?thesis .
qed

theorem trigger_onset_exact_witness:
  "state calibrated_60Hz = S_IDLE \<and>
   state (step (4, Some 80) calibrated_60Hz) = S_ZC_OFFSET \<and>
   \<not> triac_on (run (hold (take 87 (replicate 88 0))) (step (4, Some 80) calibrated_60Hz)) \<and>
   triac_on (run (hold (replicate 88 0)) (step (4, Some 80) calibrated_60Hz))"
proof -
  let ?t = "step (4, Some 80) calibrated_60Hz"
  have r: "calibrated_60Hz = run [] calibrated_60Hz" by simp
  have 3: "state calibrated_60Hz = S_IDLE" by code_simp
  have 5: "state ?t = S_ZC_OFFSET" by code_simp
  have 6: "minDim ?t \<le> dimValue ?t" by code_simp
  have 7: "dimValue ?t \<le> maxDim ?t" by code_simp
  have d: "dimValue ?t = 80" by code_simp
  have 8: "length (replicate 88 (0::u8)) = unat ZC_OFFSET + unat (dimValue ?t)"
    unfolding d by (simp add: timing_defs)
  have 9: "87 < length (replicate 88 (0::u8))" by simp
  note th = trigger_onset_exact [OF setup_60Hz r 3 refl 5 6 7 8]
  note before = th [THEN conjunct1, THEN spec, of 87, THEN mp, OF 9]
  note onset = th [THEN conjunct2, THEN conjunct1]
  show ?thesis using 3 5 before onset by (intro conjI) assumption+
qed

subsection \<open>The OFF value\<close>

text \<open>
  C3. From any state of a normal-mode execution that is in \<open>S_DELAY\<close>, with \<open>dimValue\<close> above
  \<open>SAFETY_TIMEOUT\<close> (the OFF value 255 for one) and not written again: the state stays
  \<open>S_DELAY\<close> with the gate output deasserted until the counter reaches \<open>SAFETY_TIMEOUT\<close>; on
  that tick the output is deasserted and the state is \<open>S_IDLE\<close>. Counting from the entry into
  \<open>S_DELAY\<close>, where the counter is 0, that is the 210th tick.
\<close>

theorem off_value_never_triggers:
  assumes "setup_calib edges (power_on portb) = Some s0" and "s = run pre s0"
    and "state s = S_DELAY" and "SAFETY_TIMEOUT < dimValue s"
    and "length pins = unat SAFETY_TIMEOUT - unat (counter s)"
  shows "(\<forall>k < length pins.
            state (run (hold (take k pins)) s) = S_DELAY \<and>
            \<not> triac_on (run (hold (take k pins)) s)) \<and>
         state (run (hold pins) s) = S_IDLE \<and> \<not> triac_on (run (hold pins) s) \<and>
         counter (run (hold pins) s) = SAFETY_TIMEOUT"
proof -
  have inv: "inv_normal s" using assms(1,2) by (rule reachable_inv)
  then have nc: "\<not> calibMode s" and c: "unat (counter s) < 210" and off: "\<not> triac_on s"
    using assms(3) by (auto simp add: inv_normal_def state_defs)
  have d: "210 < unat (dimValue s)"
    using assms(4) by (simp add: timing_defs word_less_nat_alt)
  have len: "unat (counter s) + length pins = 210"
    using assms(5) c by (simp add: timing_defs)
  have stay: "state (run (hold (take k pins)) s) = S_DELAY \<and>
              \<not> triac_on (run (hold (take k pins)) s)" if "k < length pins" for k
    using delay_phase [OF nc assms(3), of "take k pins"] that len d off by simp
  have "pins \<noteq> []" using len c by auto
  then have fin: "state (run (hold pins) s) = S_IDLE \<and> \<not> triac_on (run (hold pins) s) \<and>
         unat (counter (run (hold pins) s)) = 210"
    using delay_timeout [OF nc assms(3) len d] by simp
  then have "unat (counter (run (hold pins) s)) = unat SAFETY_TIMEOUT"
    by (simp add: timing_defs)
  then have "counter (run (hold pins) s) = SAFETY_TIMEOUT"
    by (simp only: word_unat_eq_iff)
  with stay fin show ?thesis by simp
qed

theorem off_value_never_triggers_witness:
  "state (run (edge_then_offset 255) calibrated_60Hz) = S_DELAY \<and>
   dimValue (run (edge_then_offset 255) calibrated_60Hz) = DIM_OFF \<and>
   state (run (hold (take 209 (replicate 210 4))) (run (edge_then_offset 255) calibrated_60Hz))
     = S_DELAY \<and>
   state (run (hold (replicate 210 4)) (run (edge_then_offset 255) calibrated_60Hz)) = S_IDLE \<and>
   \<not> triac_on (run (hold (replicate 210 4)) (run (edge_then_offset 255) calibrated_60Hz))"
proof -
  let ?s = "run (edge_then_offset 255) calibrated_60Hz"
  have 3: "state ?s = S_DELAY" by code_simp
  have d: "dimValue ?s = DIM_OFF" by code_simp
  have 4: "SAFETY_TIMEOUT < dimValue ?s" unfolding d by (simp add: timing_defs DIM_OFF_def)
  have c: "counter ?s = 0" by code_simp
  have 5: "length (replicate 210 (4::u8)) = unat SAFETY_TIMEOUT - unat (counter ?s)"
    unfolding c by (simp add: timing_defs)
  have 6: "209 < length (replicate 210 (4::u8))" by simp
  note th = off_value_never_triggers [OF setup_60Hz refl 3 4 5]
  note stay = th [THEN conjunct1, THEN spec, of 209, THEN mp, OF 6, THEN conjunct1]
  note idle = th [THEN conjunct2, THEN conjunct1]
  note off = th [THEN conjunct2, THEN conjunct2, THEN conjunct1]
  show ?thesis using 3 d stay idle off by (intro conjI) assumption+
qed

subsection \<open>Calibrated bounds\<close>

text \<open>
  C4. Let the edge \<open>setup()\<close> synchronises on arrive, and let the edges \<open>1, \<dots>, n - 1\<close> after
  it arrive with at least 8 of their samples inside the window. Then \<open>setup()\<close> returns, in
  normal mode, and with \<open>avgPeriod\<close> the integer average of the first 8 accepted samples,
  \<open>maxDim = clamp(avgPeriod - 9, 156, 195)\<close> and
  \<open>minDim = clamp(avgPeriod * 62 / 166 - 1, 50, 80)\<close>, the division rounding down. If those
  8 samples are 166 ticks each, \<open>maxDim = 157\<close> and \<open>minDim = 61\<close>.
\<close>

theorem calibration_bounds:
  assumes "edges 0 \<noteq> None" and "\<forall>j. 1 \<le> j \<and> j < n \<longrightarrow> edges j \<noteq> None"
    and "8 \<le> length (accepted_samples edges 1 n)"
  shows "\<exists>s'. setup_calib edges s = Some s' \<and> \<not> calibMode s' \<and>
           uint (maxDim s') =
             clamp_spec (avgPeriod_spec (take 8 (accepted_samples edges 1 n)) - 9) 156 195 \<and>
           uint (minDim s') =
             clamp_spec (avgPeriod_spec (take 8 (accepted_samples edges 1 n)) * 62 div 166 - 1)
               50 80 \<and>
           ((\<forall>x \<in> set (take 8 (accepted_samples edges 1 n)). x = 166) \<longrightarrow>
              maxDim s' = 157 \<and> minDim s' = 61)"
proof -
  from setup_returns [OF assms, of s] obtain s' periodSum m
    where r: "setup_calib edges s = Some s'" "\<not> calibMode s'"
      "measure_loop edges 1 0 0 = Some (periodSum, m)"
    by blast
  have eq: "accepted_samples edges 1 m = take 8 (accepted_samples edges 1 n)"
    using first_eight [OF r(3) assms(3)] .
  note v = setup_values [OF r(1,3), unfolded eq]
  from r(1,2) v show ?thesis by blast
qed

theorem calibration_bounds_witness:
  "(\<exists>s'. setup_calib noisy_mains (power_on 0) = Some s' \<and> \<not> calibMode s' \<and>
         maxDim s' = 157 \<and> minDim s' = 61) \<and>
   setup_calib noisy_mains (power_on 0) = Some calibrated_60Hz"
proof -
  have 1: "noisy_mains 0 \<noteq> None" by (simp add: noisy_mains_def)
  have 2: "\<forall>j. 1 \<le> j \<and> j < 14 \<longrightarrow> noisy_mains j \<noteq> None" by (simp add: noisy_mains_def)
  have 3: "8 \<le> length (accepted_samples noisy_mains 1 14)"
    unfolding noisy_samples by simp
  have 4: "\<forall>x \<in> set (take 8 (accepted_samples noisy_mains 1 14)). x = 166"
    unfolding noisy_samples by simp
  from calibration_bounds [OF 1 2 3, of "power_on 0"] 4
  have a: "\<exists>s'. setup_calib noisy_mains (power_on 0) = Some s' \<and> \<not> calibMode s' \<and>
         maxDim s' = 157 \<and> minDim s' = 61"
    by blast
  have m: "measure_loop noisy_mains 1 0 0 = Some (1328, 12)"
    by (simp add: measure_loop.simps noisy_mains_def)
  have b: "setup_calib noisy_mains (power_on 0) = Some calibrated_60Hz"
    by (simp add: setup_calib_def m [simplified] Let_def power_on_def calibrated_60Hz_def
      calc_maxDim_def calc_minDim_def noisy_mains_def MAX_DIM_MARGIN_def MAX_DIM_MIN_def
      MAX_DIM_MAX_def MIN_DIM_BASE_def MIN_DIM_MIN_def MIN_DIM_MAX_def)
  from a b show ?thesis by (rule conjI)
qed

subsection \<open>Pulse width\<close>

text \<open>
  C5. The tick on which the handler leaves \<open>S_DELAY\<close> for \<open>S_TRIGGER\<close> asserts the gate
  output. Whatever is sampled and whatever is written to \<open>dimValue\<close> afterwards, the output
  and the state \<open>S_TRIGGER\<close> are held after each of the next 9 ticks, and the tenth tick
  (\<open>TRIGGER_PULSE_WIDTH\<close>) deasserts the output and returns to \<open>S_IDLE\<close>.
\<close>

theorem pulse_width_exact:
  assumes "\<not> calibMode s" and "state s = S_DELAY" and "state (step e s) = S_TRIGGER"
    and "length evs = unat TRIGGER_PULSE_WIDTH"
  shows "(\<forall>k < unat TRIGGER_PULSE_WIDTH.
            state (run (take k evs) (step e s)) = S_TRIGGER \<and>
            triac_on (run (take k evs) (step e s))) \<and>
         state (run evs (step e s)) = S_IDLE \<and> \<not> triac_on (run evs (step e s))"
proof -
  let ?t = "step e s"
  have nc: "\<not> calibMode ?t" using assms(1) by (simp add: step_frame)
  have on: "triac_on ?t" and c0: "counter ?t = 0"
    using step_delay_fire [OF assms(1-3)] by simp_all
  have len: "length evs = 10" using assms(4) by (simp add: timing_defs)
  have held: "state (run (take k evs) ?t) = S_TRIGGER \<and> triac_on (run (take k evs) ?t)"
    if "k < 10" for k
    using trigger_phase [OF nc assms(3), of "take k evs"] that len c0 on by simp
  have "evs \<noteq> []" using len by auto
  then have "state (run evs ?t) = S_IDLE \<and> \<not> triac_on (run evs ?t)"
    using trigger_end [OF nc assms(3), of evs] len c0 by simp
  with held show ?thesis by (simp add: timing_defs)
qed

theorem pulse_width_exact_witness:
  "state (run (edge_then_offset 1) calibrated_60Hz) = S_DELAY \<and>
   state (step (0, None) (run (edge_then_offset 1) calibrated_60Hz)) = S_TRIGGER \<and>
   triac_on (run (take 9 busy_ticks) (step (0, None) (run (edge_then_offset 1) calibrated_60Hz))) \<and>
   state (run busy_ticks (step (0, None) (run (edge_then_offset 1) calibrated_60Hz))) = S_IDLE \<and>
   \<not> triac_on (run busy_ticks (step (0, None) (run (edge_then_offset 1) calibrated_60Hz)))"
proof -
  let ?s = "run (edge_then_offset 1) calibrated_60Hz"
  have 1: "\<not> calibMode ?s" by code_simp
  have 2: "state ?s = S_DELAY" by code_simp
  have 3: "state (step (0, None) ?s) = S_TRIGGER" by code_simp
  have 4: "length busy_ticks = unat TRIGGER_PULSE_WIDTH"
    by (simp add: busy_ticks_def timing_defs)
  have 5: "(9::nat) < unat TRIGGER_PULSE_WIDTH" by (simp add: timing_defs)
  note th = pulse_width_exact [OF 1 2 3 4]
  note held = th [THEN conjunct1, THEN spec, of 9, THEN mp, OF 5, THEN conjunct2]
  note idle = th [THEN conjunct2, THEN conjunct1]
  note off = th [THEN conjunct2, THEN conjunct2]
  show ?thesis using 2 3 held idle off by (intro conjI) assumption+
qed

subsection \<open>Spacing of accepted edges\<close>

text \<open>
  C6. In normal mode a tick leaves \<open>S_IDLE\<close> for \<open>S_ZC_OFFSET\<close> (accepts an edge) only on a
  rising edge with the debounce timer, after its saturating increment of this tick,
  strictly above \<open>MIN_ZC_PERIOD\<close>; the accepting tick resets the timer to 0. Hence if an
  edge is accepted on one tick and another on a later tick, with the ticks \<open>evs\<close> in between,
  the later tick comes \<open>length evs + 1\<close> ticks after the earlier one, and this exceeds
  \<open>MIN_ZC_PERIOD\<close>.
\<close>

theorem accepted_edges_spacing:
  assumes "\<not> calibMode s" and "state s = S_IDLE" and "state (step e s) = S_ZC_OFFSET"
    and "s' = run evs (step e s)"
    and "state s' = S_IDLE" and "state (step e' s') = S_ZC_OFFSET"
  shows "(drop_bit ZC_PIN (fst e) AND 1) AND NOT (lastPin s) \<noteq> 0 \<and>
         MIN_ZC_PERIOD < (if zcTimer s < 255 then zcTimer s + 1 else zcTimer s) \<and>
         zcTimer (step e s) = 0 \<and>
         unat MIN_ZC_PERIOD < length evs + 1"
proof -
  let ?t = "step e s"
  note acc = step_accept [OF assms(1-3)]
  have nct: "\<not> calibMode ?t" using assms(1) by (simp add: step_frame)
  have nc': "\<not> calibMode s'" using nct assms(4) by (simp add: run_frame)
  note acc' = step_accept(1) [OF nc' assms(5,6)]
  have "unat (zcTimer s') \<le> length evs"
    using run_timer [OF nct, of evs] acc(3) assms(4) by simp
  moreover have "140 < unat (if zcTimer s' < 255 then zcTimer s' + 1 else zcTimer s')"
    using acc' by (simp add: zc_accepted_def timing_defs word_less_nat_alt)
  then have "140 \<le> unat (zcTimer s')"
    unfolding sat_inc_unat by (simp split: if_splits)
  ultimately have "unat MIN_ZC_PERIOD < length evs + 1" by (simp add: timing_defs)
  with acc(1,3) show ?thesis by (simp add: zc_accepted_def)
qed

theorem accepted_edges_spacing_witness:
  "state (step (4, Some 1) calibrated_60Hz) = S_ZC_OFFSET \<and>
   zcTimer (step (4, Some 1) calibrated_60Hz) = 0 \<and>
   state (step (4, Some 1) (run (hold (replicate 140 0)) (step (4, Some 1) calibrated_60Hz)))
     = S_ZC_OFFSET \<and>
   unat MIN_ZC_PERIOD < length (hold (replicate 140 0)) + 1"
proof -
  let ?s = "calibrated_60Hz"
  let ?s' = "run (hold (replicate 140 0)) (step (4, Some 1) ?s)"
  have 1: "\<not> calibMode ?s" by code_simp
  have 2: "state ?s = S_IDLE" by code_simp
  have 3: "state (step (4, Some 1) ?s) = S_ZC_OFFSET" by code_simp
  have 5: "state ?s' = S_IDLE" by code_simp
  have 6: "state (step (4, Some 1) ?s') = S_ZC_OFFSET" by code_simp
  note th = accepted_edges_spacing [OF 1 2 3 refl 5 6]
  note reset = th [THEN conjunct2, THEN conjunct2, THEN conjunct1]
  note far = th [THEN conjunct2, THEN conjunct2, THEN conjunct2]
  show ?thesis using 3 reset 6 far by (intro conjI) assumption+
qed

subsection \<open>Unknown state\<close>

text \<open>
  C7. In normal mode, for every value of \<open>state\<close> other than the four named states, one call
  of the tick handler deasserts the gate output and sets the state to \<open>S_IDLE\<close>.
\<close>

theorem unknown_state_recovers:
  assumes "\<not> calibMode s"
    and "state s \<notin> {S_IDLE, S_ZC_OFFSET, S_DELAY, S_TRIGGER}"
  shows "state (TIMER1_COMPA_vect PINB s) = S_IDLE \<and> \<not> triac_on (TIMER1_COMPA_vect PINB s)"
  using assms isr_default [of s PINB] by simp

theorem unknown_state_recovers_witness:
  "state (TIMER1_COMPA_vect 4 (corrupted 200)) = S_IDLE \<and>
   \<not> triac_on (TIMER1_COMPA_vect 4 (corrupted 200)) \<and>
   triac_on (corrupted 200) \<and> state (corrupted 200) = 200"
proof -
  have "\<not> calibMode (corrupted 200)"
    and "state (corrupted 200) \<notin> {S_IDLE, S_ZC_OFFSET, S_DELAY, S_TRIGGER}"
    by (simp_all add: corrupted_def state_defs)
  from unknown_state_recovers [OF this, of 4] show ?thesis
    by (simp add: corrupted_def triac_on_def pin_defs)
qed

subsection \<open>The measurement loop and the plausibility window\<close>

text \<open>
  C8. The loop is to count only inter-edge tick counts inside \<open>[140, 220]\<close> and to return
  only when the edges supply 8 of them. It tests the 16-bit \<open>calibCounter\<close>, which the
  handler increments without saturating, so a gap of 65702 ticks reads as 166. On a mains
  whose edges are 65702 ticks apart no tick count is in the window, yet the loop returns
  after 8 edges with \<open>periodSum = 1328\<close>, and \<open>setup()\<close> completes with the bounds of a 60 Hz
  mains.
\<close>

theorem wrapped_gap_is_counted:
  "calib_reading 65702 = 166 \<and>
   (\<forall>n. window_gaps_spec slow_mains 1 n = []) \<and>
   measure_loop (readings_of slow_mains) 1 0 0 = Some (1328, 9) \<and>
   setup_calib (readings_of slow_mains) (power_on 0) = Some calibrated_60Hz"
proof -
  have "measure_loop (readings_of slow_mains) 1 0 0 = Some (1328, 9)"
    using measure_60Hz [of 1] by (simp add: slow_mains_reads_60Hz)
  then show ?thesis
    by (simp add: reading_65702 slow_mains_no_sample slow_mains_reads_60Hz setup_60Hz)
qed

subsection \<open>The mapper\<close>

text \<open>
  C9. In every state of a normal-mode execution, one iteration of \<open>loop()\<close> changes no
  variable of the handler but \<open>dimValue\<close>. A reading at or above \<open>ADC_OFF\<close> gives
  \<open>DIM_OFF = 255\<close>, which is above \<open>SAFETY_TIMEOUT\<close>. Any other reading is clamped into \<open>[ADC_MIN, ADC_MAX]\<close>, scaled to
  \<open>0..1023\<close> and mapped linearly, and the value written lies between the calibrated
  \<open>minDim\<close> and \<open>maxDim\<close>.
\<close>

theorem mapper_output:
  assumes "setup_calib edges (power_on portb) = Some s0" and "s = run pre s0"
  shows "loop adc s = s\<lparr>dimValue := dimValue (loop adc s)\<rparr> \<and>
         (ADC_OFF \<le> sint adc \<longrightarrow>
            dimValue (loop adc s) = DIM_OFF \<and> SAFETY_TIMEOUT < dimValue (loop adc s)) \<and>
         (sint adc < ADC_OFF \<longrightarrow>
            minDim s \<le> dimValue (loop adc s) \<and> dimValue (loop adc s) \<le> maxDim s \<and>
            uint (dimValue (loop adc s)) =
              uint (minDim s) +
              (clamp_spec (sint adc) ADC_MIN ADC_MAX - ADC_MIN) * 1023 div (ADC_MAX - ADC_MIN)
                * (uint (maxDim s) - uint (minDim s)) div 1023)"
proof -
  have b: "unat (minDim s) \<le> 80" "156 \<le> unat (maxDim s)"
    using setup_bounds [OF assms(1)] assms(2) by (simp_all add: run_frame)
  let ?m = "uint (minDim s)" and ?M = "uint (maxDim s)"
  have mM: "?m \<le> ?M" unfolding uint_nat using b by linarith
  let ?p = "potScaled_of (sint adc)"
  let ?r = "map_long ?p 0 1023 ?m ?M"
  note p = potScaled_range [of "sint adc"]
  note r = map_long_range [OF conjunct1 [OF p] conjunct2 [OF p] mM]
  have M: "?M < 256" using uint_lt2p [of "maxDim s"] by simp
  have "0 \<le> ?m" by simp
  then have "0 \<le> ?r" "?r < 256" using r(2,3) M by linarith+
  then have u: "uint (word_of_int ?r :: u8) = ?r"
    by (simp add: uint_word_of_int)
  have off: "dimValue (loop adc s) = DIM_OFF \<and> SAFETY_TIMEOUT < dimValue (loop adc s)"
    if "ADC_OFF \<le> sint adc"
    using that by (simp add: loop_dimValue DIM_OFF_def timing_defs)
  have on: "minDim s \<le> dimValue (loop adc s) \<and> dimValue (loop adc s) \<le> maxDim s \<and>
            uint (dimValue (loop adc s)) =
              ?m + (clamp_spec (sint adc) ADC_MIN ADC_MAX - ADC_MIN) * 1023 div (ADC_MAX - ADC_MIN)
                * (?M - ?m) div 1023"
    if "sint adc < ADC_OFF"
  proof -
    have d: "dimValue (loop adc s) = word_of_int ?r" using that by (simp add: loop_dimValue)
    have "uint (dimValue (loop adc s)) = ?r" unfolding d by (rule u)
    then show ?thesis using r by (simp add: word_le_def potScaled_clamp)
  qed
  from off on loop_write [of adc s] show ?thesis by blast
qed

theorem mapper_output_witness:
  "dimValue (loop 1000 calibrated_60Hz) = DIM_OFF \<and>
   SAFETY_TIMEOUT < dimValue (loop 1000 calibrated_60Hz) \<and>
   minDim calibrated_60Hz \<le> dimValue (loop 470 calibrated_60Hz) \<and>
   dimValue (loop 470 calibrated_60Hz) \<le> maxDim calibrated_60Hz \<and>
   dimValue (loop 470 calibrated_60Hz) = 108"
proof -
  have r: "calibrated_60Hz = run [] calibrated_60Hz" by simp
  have 1: "ADC_OFF \<le> sint (1000 :: 16 word)" by (simp add: ADC_OFF_def)
  have 2: "sint (470 :: 16 word) < ADC_OFF" by (simp add: ADC_OFF_def)
  have 3: "dimValue (loop 470 calibrated_60Hz) = 108" by code_simp
  note off = mapper_output [OF setup_60Hz r, of 1000, THEN conjunct2, THEN conjunct1, THEN mp, OF 1]
  note on = mapper_output [OF setup_60Hz r, of 470, THEN conjunct2, THEN conjunct2, THEN mp, OF 2]
  show ?thesis
    using off [THEN conjunct1] off [THEN conjunct2] on [THEN conjunct1]
      on [THEN conjunct2, THEN conjunct1] 3
    by (intro conjI) assumption+
qed

subsection \<open>Edges outside the idle state\<close>

text \<open>
  C10. In normal mode, in the states \<open>S_ZC_OFFSET\<close>, \<open>S_DELAY\<close> and \<open>S_TRIGGER\<close> the sampled
  input only reaches the latch \<open>lastPin\<close>: two calls of the handler with different samples
  give states that differ in \<open>lastPin\<close> alone, so a rising edge changes neither the state nor
  the counter nor the output, and the debounce timer takes its saturating increment and is
  not reset to 0.
\<close>

theorem edge_ignored_outside_idle:
  assumes "\<not> calibMode s" and "state s \<in> {S_ZC_OFFSET, S_DELAY, S_TRIGGER}"
  shows "(TIMER1_COMPA_vect PINB s)\<lparr>lastPin := l\<rparr> = (TIMER1_COMPA_vect PINB' s)\<lparr>lastPin := l\<rparr> \<and>
         lastPin (TIMER1_COMPA_vect PINB s) = drop_bit ZC_PIN PINB AND 1 \<and>
         zcTimer (TIMER1_COMPA_vect PINB s) = (if zcTimer s < 255 then zcTimer s + 1 else zcTimer s) \<and>
         zcTimer (TIMER1_COMPA_vect PINB s) \<noteq> 0"
proof -
  have z: "zcTimer s < 255 \<Longrightarrow> zcTimer s + 1 \<noteq> 0" "\<not> zcTimer s < 255 \<Longrightarrow> zcTimer s \<noteq> 0"
    by (auto simp add: word_less_nat_alt unat_eq_0 [symmetric] u8_succ simp del: unat_eq_0)
  from assms(2) consider "state s = S_ZC_OFFSET" | "state s = S_DELAY" | "state s = S_TRIGGER"
    by blast
  then show ?thesis
  proof cases
    case 1
    with assms(1) show ?thesis by (simp add: TIMER1_COMPA_vect_def Let_def state_defs z)
  next
    case 2
    with assms(1) show ?thesis by (simp add: TIMER1_COMPA_vect_def Let_def state_defs z)
  next
    case 3
    with assms(1) show ?thesis by (simp add: TIMER1_COMPA_vect_def Let_def state_defs z)
  qed
qed

theorem edge_ignored_outside_idle_witness:
  "(TIMER1_COMPA_vect 4 (run (edge_then_offset 80) calibrated_60Hz))\<lparr>lastPin := 0\<rparr> =
   (TIMER1_COMPA_vect 0 (run (edge_then_offset 80) calibrated_60Hz))\<lparr>lastPin := 0\<rparr> \<and>
   lastPin (TIMER1_COMPA_vect 4 (run (edge_then_offset 80) calibrated_60Hz)) = 1 \<and>
   lastPin (run (edge_then_offset 80) calibrated_60Hz) = 0 \<and>
   zcTimer (TIMER1_COMPA_vect 4 (run (edge_then_offset 80) calibrated_60Hz)) \<noteq> 0"
proof -
  let ?s = "run (edge_then_offset 80) calibrated_60Hz"
  have 1: "\<not> calibMode ?s" by code_simp
  have "state ?s = S_DELAY" by code_simp
  then have 2: "state ?s \<in> {S_ZC_OFFSET, S_DELAY, S_TRIGGER}" by simp
  have 3: "lastPin ?s = 0" by code_simp
  have 4: "drop_bit ZC_PIN (4::u8) AND 1 = 1" by code_simp
  note th = edge_ignored_outside_idle [OF 1 2, where PINB = 4 and PINB' = 0 and l = 0]
  note same = th [THEN conjunct1]
  note latch = th [THEN conjunct2, THEN conjunct1, unfolded 4]
  note timer = th [THEN conjunct2, THEN conjunct2, THEN conjunct2]
  show ?thesis using same latch 3 timer by (intro conjI) assumption+
qed

end
